theory Spec2Isabelle
  imports
    Complex_Main
    "HOL-Library.Sublist"
    "HOL-Library.Char_ord"
    "HOL-Library.List_Lexorder"
    "HOL-Library.Multiset"
    "HOL-Library.Log_Nat"
begin

section \<open>Strings and numbers of the host language\<close>

text \<open>
  A string is the list of the bytes of its UTF-8 encoding: an ASCII character is one
  byte, every other code point is the two to four bytes of its encoding. The text the
  program handles is well formed (the key file is decoded on reading, the provider's
  bodies are JSON), and on well-formed text the substring test, the split at line
  feeds, the digit tests and the store's binary string order read the same on these
  bytes as on the characters; an encoding that occurs at the start or at the end of the
  bytes is a character at the start or at the end of the text.

  The white space of \<open>trim\<close>, \<open>parseFloat\<close> and \<open>parseInt\<close> is the language's
  \<open>WhiteSpace\<close> and \<open>LineTerminator\<close> set, listed here by encoding: TAB, LF, VT, FF,
  CR, SPACE, U+00A0, U+1680, U+2000 to U+200A, U+2028, U+2029, U+202F, U+205F, U+3000
  and U+FEFF.
\<close>

definition js_white_space :: "string list" where
  "js_white_space =
     [[CHR 0x09], [CHR 0x0A], [CHR 0x0B], [CHR 0x0C], [CHR 0x0D], [CHR 0x20],
      [CHR 0xC2, CHR 0xA0],
      [CHR 0xE1, CHR 0x9A, CHR 0x80],
      [CHR 0xE2, CHR 0x80, CHR 0x80], [CHR 0xE2, CHR 0x80, CHR 0x81],
      [CHR 0xE2, CHR 0x80, CHR 0x82], [CHR 0xE2, CHR 0x80, CHR 0x83],
      [CHR 0xE2, CHR 0x80, CHR 0x84], [CHR 0xE2, CHR 0x80, CHR 0x85],
      [CHR 0xE2, CHR 0x80, CHR 0x86], [CHR 0xE2, CHR 0x80, CHR 0x87],
      [CHR 0xE2, CHR 0x80, CHR 0x88], [CHR 0xE2, CHR 0x80, CHR 0x89],
      [CHR 0xE2, CHR 0x80, CHR 0x8A],
      [CHR 0xE2, CHR 0x80, CHR 0xA8], [CHR 0xE2, CHR 0x80, CHR 0xA9],
      [CHR 0xE2, CHR 0x80, CHR 0xAF],
      [CHR 0xE2, CHR 0x81, CHR 0x9F],
      [CHR 0xE3, CHR 0x80, CHR 0x80],
      [CHR 0xEF, CHR 0xBB, CHR 0xBF]]"

text \<open>Drop from the front of \<open>s\<close>, as long as there is one, a leading occurrence of one
  of the sequences \<open>ws\<close>.\<close>

function skip_seqs :: "'a list list \<Rightarrow> 'a list \<Rightarrow> 'a list" where
  "skip_seqs ws s =
     (case find (\<lambda>w. w \<noteq> [] \<and> prefix w s) ws of
        None \<Rightarrow> s
      | Some w \<Rightarrow> skip_seqs ws (drop (length w) s))"
  by pat_completeness auto

termination
  by (relation "measure (\<lambda>(ws, s). length s)") (auto simp: find_Some_iff prefix_def)

declare skip_seqs.simps [simp del]

text \<open>Leading white space, as skipped by \<open>trim\<close> and by the two numeric parsers.\<close>

definition skip_ws :: "string \<Rightarrow> string" where
  "skip_ws s = skip_seqs js_white_space s"

definition is_digit :: "char \<Rightarrow> bool" where
  "is_digit c = (48 \<le> (of_char c :: nat) \<and> (of_char c :: nat) \<le> 57)"

text \<open>\<open>String.prototype.trim\<close>: strip white space from both ends. The trailing white
  space is found on the reversed string, where every encoding reads backwards.\<close>

definition trim :: "string \<Rightarrow> string" where
  "trim s = rev (skip_seqs (map rev js_white_space) (rev (skip_ws s)))"

text \<open>\<open>s.split("\n")\<close>: the pieces between line feeds; always at least one piece.\<close>

fun split_nl :: "string \<Rightarrow> string list" where
  "split_nl [] = [[]]"
| "split_nl (c # cs) =
     (if c = CHR 0x0A then [] # split_nl cs
      else (case split_nl cs of [] \<Rightarrow> [[c]] | l # ls \<Rightarrow> (c # l) # ls))"

text \<open>\<open>s.includes(t)\<close>: \<open>t\<close> occurs in \<open>s\<close> as a contiguous piece.\<close>

definition str_includes :: "string \<Rightarrow> string \<Rightarrow> bool" where
  "str_includes s t = sublist t s"

text \<open>Decimal rendering of a non-negative integer inside a template string.\<close>

fun show_nat :: "nat \<Rightarrow> string" where
  "show_nat n =
     (if n < 10 then [char_of (48 + n)]
      else show_nat (n div 10) @ [char_of (48 + n mod 10)])"

declare show_nat.simps [simp del]

section \<open>Effects\<close>

text \<open>
  Every operation threads one state record. Besides the module variables of the key
  rotation and of the store it carries a trace: the externally visible actions in
  program order (reading the key file, the HTTP request, store reads and writes, the
  pacing delay, and entry into a fetcher).
\<close>

datatype event =
    ReadKeylist
  | HttpGet string
  | FindStock string "string option" bool "nat option"
  | FindNews string string "string option"
  | Upsert string string
  | Wait nat
  | CallPullStock string
  | CallPullNews string string

text \<open>
  A number of the host language, an IEEE 754 binary64 value: not-a-number, an infinity,
  the negative zero, or \<open>Num q\<close>, the finite double whose value is the rational \<open>q\<close>
  (\<open>Num 0\<close> is the positive zero).
\<close>

datatype number = NaN | PosInfinity | NegInfinity | NegZero | Num rat

record StockData =
  symbol :: string
  date :: string
  open_price :: number
  high :: number
  low :: number
  close :: number
  volume :: number

record TickerSentiment =
  ticker :: string
  ts_relevance_score :: string
  ticker_sentiment_score :: string
  ticker_sentiment_label :: string

record Topic =
  topic :: string
  relevance_score :: string

record NewsItem =
  title :: string
  url :: string
  time_published :: string
  authors :: "string list"
  summary :: string
  banner_image :: "string option"
  source :: string
  category_within_source :: string
  source_domain :: string
  topics :: "Topic list"
  overall_sentiment_score :: number
  overall_sentiment_label :: string
  ticker_sentiment :: "TickerSentiment list"

text \<open>
  The process state: \<open>apiKeys\<close> and \<open>currentKeyIndex\<close> are the module variables of
  the key rotation, \<open>globalClient\<close> tells whether the store client is set, and
  \<open>stocks\<close> / \<open>news\<close> are the collections of the \<open>finance\<close> database (price
  collections by collection name, and the one \<open>news\<close> collection).
\<close>

record state =
  apiKeys :: "string list"
  currentKeyIndex :: nat
  globalClient :: bool
  stocks :: "string \<Rightarrow> StockData list"
  news :: "NewsItem list"
  trace :: "event list"

section \<open>The outside world\<close>

text \<open>
  The remote provider's answer to one GET. The body, when it is JSON, has the
  provider's documented shape: optional \<open>Error\<close> and \<open>Error Message\<close> strings, an
  optional \<open>Time Series (Daily)\<close> object given as its entries in enumeration order
  (date, then the day's fields by name), and the \<open>feed\<close> field.
\<close>

record RawNewsItem =
  r_title :: string
  r_url :: string
  r_time_published :: string
  r_authors :: "string list option"
  r_summary :: string
  r_banner_image :: "string option"
  r_source :: string
  r_category_within_source :: string
  r_source_domain :: string
  r_topics :: "Topic list option"
  r_overall_sentiment_score :: "string option"
  r_overall_sentiment_label :: string
  r_ticker_sentiment :: "TickerSentiment list option"

datatype feed_field = FeedAbsent | FeedNotArray | FeedItems "RawNewsItem list"

record payload =
  p_Error :: "string option"
  p_Error_Message :: "string option"
  p_Time_Series_Daily :: "(string \<times> (string \<times> string) list) list option"
  p_feed :: feed_field

datatype body = NotJson string | JsonBody payload

datatype http_result =
    NetworkFailure string
  | HttpResponse nat string body

text \<open>
  The environment of one call: the outcome of reading \<open>.keylist\<close> (\<open>Inl\<close> the
  message of the read error, \<open>Inr\<close> the file's text), the provider as a function of
  the URL, and the store's regular-expression matcher (pattern, options, subject).
\<close>

record env =
  keylist :: "string + string"
  net :: "string \<Rightarrow> http_result"
  regex :: "string \<Rightarrow> string \<Rightarrow> string \<Rightarrow> bool"

section \<open>Key rotation\<close>

text \<open>
  \<open>parse_keylist\<close> is the pipeline \<open>split("\n").map(trim).filter(length > 0)\<close>.
\<close>

definition parse_keylist :: "string \<Rightarrow> string list" where
  "parse_keylist content = filter (\<lambda>line. length line > 0) (map trim (split_nl content))"

text \<open>
  The tail of \<open>getKey\<close>: read the key at the cursor and advance the cursor modulo the
  pool size. A read past the end of the array is \<open>undefined\<close>, which the callers
  interpolate as the text \<open>undefined\<close>.
\<close>

definition next_key :: "state \<Rightarrow> (string + string) \<times> state" where
  "next_key s =
     (Inr (if currentKeyIndex s < length (apiKeys s) then apiKeys s ! currentKeyIndex s
           else ''undefined''),
      s\<lparr>currentKeyIndex := (currentKeyIndex s + 1) mod length (apiKeys s)\<rparr>)"

text \<open>
  \<open>getKey\<close>. The pool is loaded only while \<open>apiKeys\<close> is empty. The error for an
  empty file is raised inside the \<open>try\<close> block and re-thrown unchanged by the
  \<open>catch\<close> (its message does not contain \<open>No such file\<close>).
\<close>

definition getKey :: "env \<Rightarrow> state \<Rightarrow> (string + string) \<times> state" where
  "getKey e s =
     (if length (apiKeys s) = 0 then
        (let s1 = s\<lparr>trace := trace s @ [ReadKeylist]\<rparr> in
         case keylist e of
           Inl msg \<Rightarrow>
             (Inl (if str_includes msg ''No such file'' then ''.keylist file not found'' else msg), s1)
         | Inr content \<Rightarrow>
             (let s2 = s1\<lparr>apiKeys := parse_keylist content\<rparr> in
              if length (apiKeys s2) = 0 then (Inl ''.keylist file is empty'', s2)
              else next_key s2))
      else next_key s)"

text \<open>\<open>n\<close> calls of \<open>getKey\<close> in a row, stopping at the first error; the
  environment of each call is given separately (the file may change between calls).\<close>

fun getKeys :: "env list \<Rightarrow> state \<Rightarrow> (string + string list) \<times> state" where
  "getKeys [] s = (Inr [], s)"
| "getKeys (e # es) s =
     (case getKey e s of
        (Inl err, s1) \<Rightarrow> (Inl err, s1)
      | (Inr k, s1) \<Rightarrow>
          (case getKeys es s1 of
             (Inl err, s2) \<Rightarrow> (Inl err, s2)
           | (Inr ks, s2) \<Rightarrow> (Inr (k # ks), s2)))"

text \<open>The state at module load.\<close>

definition init_state :: state where
  "init_state =
     \<lparr>apiKeys = [], currentKeyIndex = 0, globalClient = False,
      stocks = (\<lambda>_. []), news = [], trace = []\<rparr>"

text \<open>The cursor always points into the pool once the pool is loaded.\<close>

definition key_inv :: "state \<Rightarrow> bool" where
  "key_inv s = (if apiKeys s = [] then currentKeyIndex s = 0
                else currentKeyIndex s < length (apiKeys s))"


section \<open>Numeric parsing\<close>

text \<open>The value of a run of decimal digits.\<close>

definition digits_val :: "string \<Rightarrow> int" where
  "digits_val ds = foldl (\<lambda>a c. 10 * a + (of_char c - 48)) 0 ds"

definition read_sign :: "string \<Rightarrow> int \<times> string" where
  "read_sign t =
     (case t of
        [] \<Rightarrow> (1, [])
      | c # r \<Rightarrow> if c = CHR ''-'' then (- 1, r) else if c = CHR ''+'' then (1, r) else (1, t))"

definition read_exponent :: "string \<Rightarrow> int" where
  "read_exponent t =
     (case t of
        [] \<Rightarrow> 0
      | c # r \<Rightarrow>
          if c = CHR ''e'' \<or> c = CHR ''E'' then
            (case read_sign r of (sg, r') \<Rightarrow>
               (let ds = takeWhile is_digit r' in
                if ds = [] then 0 else sg * digits_val ds))
          else 0)"

definition pow10 :: "int \<Rightarrow> rat" where
  "pow10 e = (if 0 \<le> e then 10 ^ nat e else 1 / 10 ^ nat (- e))"

text \<open>
  The Number value for a non-negative real \<open>x\<close>: the double nearest to \<open>x\<close>, ties to the
  even significand, and the infinity from \<open>2^1024 - 2^970\<close> on. With \<open>2^e \<le> x < 2^(e+1)\<close>
  the doubles around \<open>x\<close> are the multiples of \<open>2^q\<close>, \<open>q = max (e - 52) (-1074)\<close> (the
  second bound is the spacing of the subnormals).
\<close>

definition pow2 :: "int \<Rightarrow> rat" where
  "pow2 e = (if 0 \<le> e then 2 ^ nat e else 1 / 2 ^ nat (- e))"

definition ilog2 :: "rat \<Rightarrow> int" where
  "ilog2 x =
     (case quotient_of x of (a, b) \<Rightarrow>
        (let d = bitlen a - bitlen b in if pow2 d \<le> x then d else d - 1))"

definition round_half_even :: "rat \<Rightarrow> int" where
  "round_half_even r =
     (let f = \<lfloor>r\<rfloor>; d = r - of_int f
      in if d < 1 / 2 then f else if 1 / 2 < d then f + 1 else if even f then f else f + 1)"

definition round_double :: "rat \<Rightarrow> number" where
  "round_double x =
     (if x \<le> 0 then Num 0
      else
        (let q = max (ilog2 x - 52) (- 1074);
             v = of_int (round_half_even (x / pow2 q)) * pow2 q
         in if pow2 1024 \<le> v then PosInfinity else Num v))"

text \<open>Unary minus on numbers; the literal's sign is applied after rounding, so that a
  negative literal that rounds to zero is the negative zero.\<close>

definition negate :: "number \<Rightarrow> number" where
  "negate n =
     (case n of
        NaN \<Rightarrow> NaN
      | PosInfinity \<Rightarrow> NegInfinity
      | NegInfinity \<Rightarrow> PosInfinity
      | NegZero \<Rightarrow> Num 0
      | Num v \<Rightarrow> if v = 0 then NegZero else Num (- v))"

definition signed :: "int \<Rightarrow> number \<Rightarrow> number" where
  "signed sg n = (if sg < 0 then negate n else n)"

text \<open>
  \<open>parseFloat\<close>: skip leading white space, then read the longest prefix that is a
  decimal literal (sign, \<open>Infinity\<close> or digits with optional fraction and exponent);
  \<open>NaN\<close> when there is none. The result is the double nearest to the literal's value,
  with the literal's sign.
\<close>

definition parseFloat :: "string \<Rightarrow> number" where
  "parseFloat s =
     (case read_sign (skip_ws s) of (sg, t1) \<Rightarrow>
        if prefix ''Infinity'' t1 then signed sg PosInfinity
        else
          (let ip = takeWhile is_digit t1;
               r1 = dropWhile is_digit t1;
               has_dot = (case r1 of [] \<Rightarrow> False | c # r \<Rightarrow> c = CHR ''.'');
               fp = (if has_dot then takeWhile is_digit (tl r1) else []);
               r2 = (if has_dot then dropWhile is_digit (tl r1) else r1)
           in if ip = [] \<and> fp = [] then NaN
              else signed sg
                     (round_double
                        ((of_int (digits_val ip) + of_int (digits_val fp) / 10 ^ length fp)
                         * pow10 (read_exponent r2)))))"

text \<open>\<open>parseInt(s, 10)\<close>: white space, sign, then the longest run of decimal digits;
  the result is the double nearest to that integer.\<close>

definition parseInt10 :: "string \<Rightarrow> number" where
  "parseInt10 s =
     (case read_sign (skip_ws s) of (sg, t1) \<Rightarrow>
        (let ds = takeWhile is_digit t1 in
         if ds = [] then NaN else signed sg (round_double (of_int (digits_val ds)))))"

text \<open>A property that is absent reads as \<open>undefined\<close>, which both parsers first turn
  into the text \<open>undefined\<close>.\<close>

definition to_string :: "string option \<Rightarrow> string" where
  "to_string v = (case v of None \<Rightarrow> ''undefined'' | Some t \<Rightarrow> t)"

section \<open>The document store\<close>

definition not_connected :: string where
  "not_connected = ''Not connected to MongoDB. Call connect() first.''"

text \<open>\<open>replaceOne(filter, doc, {upsert: true})\<close>: the first document matching the filter
  is replaced in place; when none matches, the document is inserted.\<close>

fun replaceOne :: "('a \<Rightarrow> bool) \<Rightarrow> 'a \<Rightarrow> 'a list \<Rightarrow> 'a list" where
  "replaceOne p doc [] = [doc]"
| "replaceOne p doc (x # xs) = (if p x then doc # xs else x # replaceOne p doc xs)"

text \<open>\<open>upsertDocument("finance", collection, {date}, doc)\<close> on a price collection.\<close>

definition upsertStockDocument ::
  "string \<Rightarrow> string \<Rightarrow> StockData \<Rightarrow> state \<Rightarrow> (string + bool) \<times> state" where
  "upsertStockDocument collection d doc s =
     (if \<not> globalClient s then (Inl not_connected, s)
      else
        (Inr True,
         s\<lparr>stocks := (stocks s)(collection := replaceOne (\<lambda>x. date x = d) doc (stocks s collection)),
           trace := trace s @ [Upsert collection d]\<rparr>))"

text \<open>\<open>upsertDocument("finance", "news", {time_published}, doc)\<close>.\<close>

definition upsertNewsDocument ::
  "string \<Rightarrow> NewsItem \<Rightarrow> state \<Rightarrow> (string + bool) \<times> state" where
  "upsertNewsDocument t doc s =
     (if \<not> globalClient s then (Inl not_connected, s)
      else
        (Inr True,
         s\<lparr>news := replaceOne (\<lambda>x. time_published x = t) doc (news s),
           trace := trace s @ [Upsert ''news'' t]\<rparr>))"

text \<open>Sort by date, descending (\<open>sort: {date: -1}\<close>); strings compare character by
  character.\<close>

definition sort_date_desc :: "StockData list \<Rightarrow> StockData list" where
  "sort_date_desc docs = rev (sort_key date docs)"

text \<open>
  \<open>findDocuments\<close> on a price collection. The filter is \<open>{}\<close> (\<open>None\<close>) or
  \<open>{date: d}\<close>; sort and limit are applied only when given, and a limit of \<open>0\<close> counts
  as not given.
\<close>

definition findStockDocuments ::
  "string \<Rightarrow> string option \<Rightarrow> bool \<Rightarrow> nat option \<Rightarrow> state \<Rightarrow> (string + StockData list) \<times> state" where
  "findStockDocuments collection flt by_date limit s =
     (if \<not> globalClient s then (Inl not_connected, s)
      else
        (let c0 = filter (\<lambda>x. case flt of None \<Rightarrow> True | Some d \<Rightarrow> date x = d) (stocks s collection);
             c1 = (if by_date then sort_date_desc c0 else c0);
             c2 = (case limit of None \<Rightarrow> c1 | Some n \<Rightarrow> if n = 0 then c1 else take n c1)
         in (Inr c2, s\<lparr>trace := trace s @ [FindStock collection flt by_date limit]\<rparr>)))"

text \<open>
  \<open>findDocuments\<close> on the news collection with the filter built by \<open>processGetNews\<close>:
  \<open>time_published\<close> between the two bounds (\<open>$gte\<close>, \<open>$lte\<close> on strings) and, when a
  keyword is given, \<open>$or\<close> of a case-insensitive \<open>$regex\<close> on title and summary.
\<close>

definition news_filter :: "env \<Rightarrow> string \<Rightarrow> string \<Rightarrow> string option \<Rightarrow> NewsItem \<Rightarrow> bool" where
  "news_filter e fromTime toTime kw a =
     (fromTime \<le> time_published a \<and> time_published a \<le> toTime \<and>
      (case kw of
         None \<Rightarrow> True
       | Some k \<Rightarrow> regex e k ''i'' (title a) \<or> regex e k ''i'' (summary a)))"

definition findNewsDocuments ::
  "env \<Rightarrow> string \<Rightarrow> string \<Rightarrow> string option \<Rightarrow> state \<Rightarrow> (string + NewsItem list) \<times> state" where
  "findNewsDocuments e fromTime toTime kw s =
     (if \<not> globalClient s then (Inl not_connected, s)
      else
        (Inr (filter (news_filter e fromTime toTime kw) (news s)),
         s\<lparr>trace := trace s @ [FindNews fromTime toTime kw]\<rparr>))"

section \<open>Fetching\<close>

text \<open>\<open>waitAfterApiCall\<close>: a 5000 ms suspension and nothing else.\<close>

definition waitAfterApiCall :: "state \<Rightarrow> state" where
  "waitAfterApiCall s = s\<lparr>trace := trace s @ [Wait 5000]\<rparr>"

definition response_ok :: "nat \<Rightarrow> bool" where
  "response_ok status = (200 \<le> status \<and> status \<le> 299)"

text \<open>\<open>data.Error || data["Error Message"]\<close>: the first of the two that is a non-empty
  string.\<close>

definition error_field :: "payload \<Rightarrow> string option" where
  "error_field d =
     (case p_Error d of
        Some m \<Rightarrow> if m \<noteq> [] then Some m
                  else (case p_Error_Message d of Some m' \<Rightarrow> if m' \<noteq> [] then Some m' else None | None \<Rightarrow> None)
      | None \<Rightarrow> (case p_Error_Message d of Some m' \<Rightarrow> if m' \<noteq> [] then Some m' else None | None \<Rightarrow> None))"

text \<open>
  The part of \<open>pullStock\<close> and \<open>pullNews\<close> from the request to the parsed body: the
  request itself, the status check, the JSON parse and the provider's error field.
  \<open>what\<close> is \<open>stock\<close> or \<open>news\<close> in the first message.
\<close>

definition fetch_json :: "env \<Rightarrow> string \<Rightarrow> string \<Rightarrow> state \<Rightarrow> (string + payload) \<times> state" where
  "fetch_json e what u s =
     (let s1 = s\<lparr>trace := trace s @ [HttpGet u]\<rparr> in
      case net e u of
        NetworkFailure m \<Rightarrow> (Inl (''Failed to fetch '' @ what @ '' data: '' @ m), s1)
      | HttpResponse status statusText b \<Rightarrow>
          if \<not> response_ok status then
            (Inl (''API request failed with status '' @ show_nat status @ '': '' @ statusText), s1)
          else
            (case b of
               NotJson m \<Rightarrow> (Inl (''Failed to parse API response as JSON: '' @ m), s1)
             | JsonBody d \<Rightarrow>
                 (case error_field d of
                    Some m \<Rightarrow> (Inl (''Alpha Vantage API error: '' @ m), s1)
                  | None \<Rightarrow> (Inr d, s1))))"

definition stockDoc :: "string \<Rightarrow> string \<Rightarrow> (string \<times> string) list \<Rightarrow> StockData" where
  "stockDoc sy d dailyData =
     \<lparr>symbol = sy, date = d,
      open_price = parseFloat (to_string (map_of dailyData ''1. open'')),
      high = parseFloat (to_string (map_of dailyData ''2. high'')),
      low = parseFloat (to_string (map_of dailyData ''3. low'')),
      close = parseFloat (to_string (map_of dailyData ''4. close'')),
      volume = parseInt10 (to_string (map_of dailyData ''5. volume''))\<rparr>"

text \<open>The name of a symbol's price collection, \<open>stock-${symbol}\<close>.\<close>

definition collectionName :: "string \<Rightarrow> string" where
  "collectionName sy = ''stock-'' @ sy"

text \<open>The loop of \<open>pullStock\<close> over the entries of the time series.\<close>

fun upsert_entries ::
  "string \<Rightarrow> (string \<times> (string \<times> string) list) list \<Rightarrow> nat \<Rightarrow> state \<Rightarrow> (string + nat) \<times> state" where
  "upsert_entries sy [] cnt s = (Inr cnt, s)"
| "upsert_entries sy ((d, vals) # rest) cnt s =
     (case upsertStockDocument (collectionName sy) d (stockDoc sy d vals) s of
        (Inl err, s1) \<Rightarrow> (Inl err, s1)
      | (Inr ack, s1) \<Rightarrow> upsert_entries sy rest (cnt + 1) s1)"

definition stock_url :: "string \<Rightarrow> string \<Rightarrow> string" where
  "stock_url sy apiKey =
     ''https://www.alphavantage.co/query?function=TIME_SERIES_DAILY&symbol='' @ sy
       @ ''&apikey='' @ apiKey"

definition pullStock :: "env \<Rightarrow> string \<Rightarrow> state \<Rightarrow> (string + nat) \<times> state" where
  "pullStock e sy s0 =
     (case getKey e (s0\<lparr>trace := trace s0 @ [CallPullStock sy]\<rparr>) of
        (Inl err, s1) \<Rightarrow> (Inl err, s1)
      | (Inr apiKey, s1) \<Rightarrow>
          (case fetch_json e ''stock'' (stock_url sy apiKey) s1 of
             (Inl err, s2) \<Rightarrow> (Inl err, s2)
           | (Inr d, s2) \<Rightarrow>
               (case p_Time_Series_Daily d of
                  None \<Rightarrow> (Inl ''Invalid API response: missing 'Time Series (Daily)' field'', s2)
                | Some timeSeries \<Rightarrow>
                    (case upsert_entries sy timeSeries 0 s2 of
                       (Inl err, s3) \<Rightarrow> (Inl err, s3)
                     | (Inr cnt, s3) \<Rightarrow> (Inr cnt, waitAfterApiCall s3)))))"

definition newsDoc :: "RawNewsItem \<Rightarrow> NewsItem" where
  "newsDoc item =
     \<lparr>title = r_title item, url = r_url item, time_published = r_time_published item,
      authors = (case r_authors item of Some a \<Rightarrow> a | None \<Rightarrow> []),
      summary = r_summary item,
      banner_image = (case r_banner_image item of Some b \<Rightarrow> if b \<noteq> [] then Some b else None | None \<Rightarrow> None),
      source = r_source item,
      category_within_source = r_category_within_source item,
      source_domain = r_source_domain item,
      topics = (case r_topics item of Some t \<Rightarrow> t | None \<Rightarrow> []),
      overall_sentiment_score = parseFloat (to_string (r_overall_sentiment_score item)),
      overall_sentiment_label = r_overall_sentiment_label item,
      ticker_sentiment = (case r_ticker_sentiment item of Some t \<Rightarrow> t | None \<Rightarrow> [])\<rparr>"

fun upsert_items :: "RawNewsItem list \<Rightarrow> nat \<Rightarrow> state \<Rightarrow> (string + nat) \<times> state" where
  "upsert_items [] cnt s = (Inr cnt, s)"
| "upsert_items (item # rest) cnt s =
     (case upsertNewsDocument (r_time_published item) (newsDoc item) s of
        (Inl err, s1) \<Rightarrow> (Inl err, s1)
      | (Inr ack, s1) \<Rightarrow> upsert_items rest (cnt + 1) s1)"

definition news_url :: "string \<Rightarrow> string \<Rightarrow> string \<Rightarrow> string" where
  "news_url apiKey time_from time_to =
     ''https://www.alphavantage.co/query?function=NEWS_SENTIMENT&apikey='' @ apiKey
       @ ''&limit=1000&time_from='' @ time_from @ ''&time_to='' @ time_to"

definition pullNews :: "env \<Rightarrow> string \<Rightarrow> string \<Rightarrow> state \<Rightarrow> (string + nat) \<times> state" where
  "pullNews e time_from time_to s0 =
     (case getKey e (s0\<lparr>trace := trace s0 @ [CallPullNews time_from time_to]\<rparr>) of
        (Inl err, s1) \<Rightarrow> (Inl err, s1)
      | (Inr apiKey, s1) \<Rightarrow>
          (case fetch_json e ''news'' (news_url apiKey time_from time_to) s1 of
             (Inl err, s2) \<Rightarrow> (Inl err, s2)
           | (Inr d, s2) \<Rightarrow>
               (case p_feed d of
                  FeedItems feed \<Rightarrow>
                    (case upsert_items feed 0 s2 of
                       (Inl err, s3) \<Rightarrow> (Inl err, s3)
                     | (Inr cnt, s3) \<Rightarrow> (Inr cnt, waitAfterApiCall s3))
                | _ \<Rightarrow> (Inl ''Invalid API response: missing or invalid 'feed' field'', s2))))"

section \<open>Date helpers\<close>

text \<open>The test \<open>/^\d{8}$/\<close>: exactly eight characters, each an ASCII digit.\<close>

definition is_yyyymmdd :: "string \<Rightarrow> bool" where
  "is_yyyymmdd d = (length d = 8 \<and> list_all is_digit d)"

text \<open>\<open>s.slice(a, b)\<close> for \<open>0 \<le> a \<le> b\<close>.\<close>

definition slice :: "string \<Rightarrow> nat \<Rightarrow> nat \<Rightarrow> string" where
  "slice t a b = take (b - a) (drop a t)"

definition invalid_date :: "string \<Rightarrow> string" where
  "invalid_date d = ''Invalid date format: '' @ d @ ''. Expected YYYYMMDD''"

definition formatStockDate :: "string \<Rightarrow> string + string" where
  "formatStockDate d =
     (if \<not> is_yyyymmdd d then Inl (invalid_date d)
      else Inr (slice d 0 4 @ ''-'' @ slice d 4 6 @ ''-'' @ slice d 6 8))"

definition formatNewsTime :: "string \<Rightarrow> bool \<Rightarrow> string + string" where
  "formatNewsTime d isEnd =
     (if \<not> is_yyyymmdd d then Inl (invalid_date d)
      else Inr (if isEnd then d @ ''T2359'' else d @ ''T0000''))"

section \<open>The query tools\<close>

datatype stock_data = DataNull | DataDoc StockData | DataDocs "StockData list"

record tool_result =
  message :: string
  data :: stock_data
  error :: "string option"

record news_result =
  n_message :: string
  n_count :: nat
  n_data :: "NewsItem list"

text \<open>
  The \<open>catch\<close> block around the auto-pull. It is written twice in the source, once
  per branch, identical except for the empty \<open>data\<close> value (\<open>null\<close> for a single
  date, \<open>[]\<close> for the list), which is the parameter \<open>no_data\<close> here.
\<close>

definition auto_pull_failed :: "string \<Rightarrow> stock_data \<Rightarrow> string \<Rightarrow> tool_result" where
  "auto_pull_failed sy no_data errorMessage =
     (if str_includes errorMessage ''.keylist'' \<or> str_includes errorMessage ''ENOENT'' then
        \<lparr>message = ''No stock data found for '' @ sy
           @ ''. Auto-pull failed: .keylist file not found. Please create a .keylist file with your Alpha Vantage API key(s), or manually pull the data using: bun src/run-stocks.ts --pull-stock ''
           @ sy,
         data = no_data,
         error = Some ''Missing .keylist file''\<rparr>
      else
        \<lparr>message = ''No stock data found for '' @ sy @ ''. Auto-pull failed: '' @ errorMessage,
         data = no_data,
         error = Some errorMessage\<rparr>)"

text \<open>The branch of \<open>processGetStockPrices\<close> for a given date.\<close>

definition prices_on_date ::
  "env \<Rightarrow> string \<Rightarrow> string \<Rightarrow> state \<Rightarrow> (string + tool_result) \<times> state" where
  "prices_on_date e sy d s =
     (case formatStockDate d of
        Inl err \<Rightarrow> (Inl err, s)
      | Inr dateFormatted \<Rightarrow>
          (case findStockDocuments (collectionName sy) (Some dateFormatted) False None s of
             (Inl err, s1) \<Rightarrow> (Inl err, s1)
           | (Inr docs, s1) \<Rightarrow>
               if length docs = 0 then
                 (case pullStock e sy s1 of
                    (Inl errorMessage, s2) \<Rightarrow> (Inr (auto_pull_failed sy DataNull errorMessage), s2)
                  | (Inr cnt, s2) \<Rightarrow>
                      (case findStockDocuments (collectionName sy) (Some dateFormatted) False None s2 of
                         (Inl errorMessage, s3) \<Rightarrow>
                           (Inr (auto_pull_failed sy DataNull errorMessage), s3)
                       | (Inr docs2, s3) \<Rightarrow>
                           if length docs2 = 0 then
                             (Inr \<lparr>message = ''No stock data found for '' @ sy @ '' on '' @ dateFormatted
                                      @ '' (even after pulling from API)'',
                                    data = DataNull, error = None\<rparr>, s3)
                           else
                             (Inr \<lparr>message = ''Stock data for '' @ sy @ '' on '' @ dateFormatted
                                      @ '' (freshly pulled from API)'',
                                    data = DataDoc (hd docs2), error = None\<rparr>, s3)))
               else
                 (Inr \<lparr>message = ''Stock data for '' @ sy @ '' on '' @ dateFormatted,
                        data = DataDoc (hd docs), error = None\<rparr>, s1)))"

text \<open>The branch for the latest 100 prices.\<close>

definition latest_prices :: "env \<Rightarrow> string \<Rightarrow> state \<Rightarrow> (string + tool_result) \<times> state" where
  "latest_prices e sy s =
     (case findStockDocuments (collectionName sy) None True (Some 100) s of
        (Inl err, s1) \<Rightarrow> (Inl err, s1)
      | (Inr docs, s1) \<Rightarrow>
          if length docs = 0 then
            (case pullStock e sy s1 of
               (Inl errorMessage, s2) \<Rightarrow> (Inr (auto_pull_failed sy (DataDocs []) errorMessage), s2)
             | (Inr cnt, s2) \<Rightarrow>
                 (case findStockDocuments (collectionName sy) None True (Some 100) s2 of
                    (Inl errorMessage, s3) \<Rightarrow>
                      (Inr (auto_pull_failed sy (DataDocs []) errorMessage), s3)
                  | (Inr docs2, s3) \<Rightarrow>
                      if length docs2 = 0 then
                        (Inr \<lparr>message = ''No stock data found for '' @ sy
                                 @ '' (even after pulling from API)'',
                               data = DataDocs [], error = None\<rparr>, s3)
                      else
                        (Inr \<lparr>message = ''Found '' @ show_nat (length docs2)
                                 @ '' stock price records for '' @ sy
                                 @ '' (freshly pulled from API)'',
                               data = DataDocs docs2, error = None\<rparr>, s3)))
          else
            (Inr \<lparr>message = ''Found '' @ show_nat (length docs) @ '' stock price records for '' @ sy,
                   data = DataDocs docs, error = None\<rparr>, s1))"

text \<open>
  \<open>processGetStockPrices(symbol, date?)\<close>. The test \<open>if (date)\<close> takes the dated
  branch only for a date that is present and not the empty string. \<open>Inl\<close> is an
  exception leaving the method.
\<close>

definition processGetStockPrices ::
  "env \<Rightarrow> string \<Rightarrow> string option \<Rightarrow> state \<Rightarrow> (string + tool_result) \<times> state" where
  "processGetStockPrices e sy dt s =
     (case dt of
        Some d \<Rightarrow> if d \<noteq> [] then prices_on_date e sy d s else latest_prices e sy s
      | None \<Rightarrow> latest_prices e sy s)"

text \<open>\<open>processGetNews(from, to, keyword?)\<close>; \<open>if (keyword)\<close> ignores an empty keyword.\<close>

definition keyword_given :: "string option \<Rightarrow> string option" where
  "keyword_given kw = (case kw of Some k \<Rightarrow> if k \<noteq> [] then Some k else None | None \<Rightarrow> None)"

definition processGetNews ::
  "env \<Rightarrow> string \<Rightarrow> string \<Rightarrow> string option \<Rightarrow> state \<Rightarrow> (string + news_result) \<times> state" where
  "processGetNews e frm to kw s =
     (case formatNewsTime frm False of
        Inl err \<Rightarrow> (Inl err, s)
      | Inr fromTime \<Rightarrow>
          (case formatNewsTime to True of
             Inl err \<Rightarrow> (Inl err, s)
           | Inr toTime \<Rightarrow>
               (case findNewsDocuments e fromTime toTime (keyword_given kw) s of
                  (Inl err, s1) \<Rightarrow> (Inl err, s1)
                | (Inr docs, s1) \<Rightarrow>
                    (let keywordInfo =
                           (case keyword_given kw of
                              Some k \<Rightarrow> '' matching keyword '' @ [CHR 0x22] @ k @ [CHR 0x22]
                            | None \<Rightarrow> [])
                     in if length docs = 0 then
                          (Inr \<lparr>n_message = ''No news articles found between '' @ frm @ '' and '' @ to
                                   @ keywordInfo,
                                 n_count = 0, n_data = []\<rparr>, s1)
                        else
                          (Inr \<lparr>n_message = ''Found '' @ show_nat (length docs)
                                   @ '' news articles between '' @ frm @ '' and '' @ to @ keywordInfo,
                                 n_count = length docs, n_data = docs\<rparr>, s1)))))"

section \<open>Notions used to state the properties\<close>

text \<open>The effect of the upsert loop on one price collection: the entries are applied
  from first to last, each by \<open>replaceOne\<close> on its date.\<close>

definition store_entries ::
  "string \<Rightarrow> (string \<times> (string \<times> string) list) list \<Rightarrow> StockData list \<Rightarrow> StockData list" where
  "store_entries sy ts c = foldl (\<lambda>c (d, vals). replaceOne (\<lambda>x. date x = d) (stockDoc sy d vals) c) c ts"

text \<open>The invocations of the price fetcher recorded in a trace, in order, and the
  number of pacing delays in it.\<close>

fun pull_calls :: "event list \<Rightarrow> string list" where
  "pull_calls [] = []"
| "pull_calls (CallPullStock sy # evs) = sy # pull_calls evs"
| "pull_calls (ev # evs) = pull_calls evs"

definition waits :: "event list \<Rightarrow> nat" where
  "waits evs = length (filter (\<lambda>ev. case ev of Wait ms \<Rightarrow> True | _ \<Rightarrow> False) evs)"

section \<open>Concrete scenarios\<close>

text \<open>A key file with the three keys \<open>K1\<close>, \<open>K2\<close>, \<open>K3\<close>, one per line, and an
  unreachable provider.\<close>

definition keyfile_k3 :: string where
  "keyfile_k3 = ''K1'' @ [CHR 0x0A] @ ''K2'' @ [CHR 0x0A] @ ''K3'' @ [CHR 0x0A]"

definition env_k3 :: env where
  "env_k3 = \<lparr>keylist = Inr keyfile_k3,
             net = (\<lambda>_. NetworkFailure ''offline''), regex = (\<lambda>_ _ _. False)\<rparr>"

text \<open>
  A key file whose lines are padded with white space outside ASCII: \<open>K1\<close>, then
  \<open>K2\<close> between two no-break spaces (U+00A0) and a carriage return, then a line holding
  only a no-break space, then a line holding only a byte-order mark (U+FEFF) and an
  ideographic space (U+3000). And a key file holding nothing but a no-break space.
\<close>

definition keyfile_padded :: string where
  "keyfile_padded =
     ''K1'' @ [CHR 0x0A]
     @ [CHR 0xC2, CHR 0xA0] @ ''K2'' @ [CHR 0xC2, CHR 0xA0, CHR 0x0D] @ [CHR 0x0A]
     @ [CHR 0xC2, CHR 0xA0] @ [CHR 0x0A]
     @ [CHR 0xEF, CHR 0xBB, CHR 0xBF, CHR 0xE3, CHR 0x80, CHR 0x80] @ [CHR 0x0A]"

definition keyfile_nbsp :: string where
  "keyfile_nbsp = [CHR 0xC2, CHR 0xA0]"

definition env_padded :: env where
  "env_padded = \<lparr>keylist = Inr keyfile_padded,
                 net = (\<lambda>_. NetworkFailure ''offline''), regex = (\<lambda>_ _ _. False)\<rparr>"

definition env_nbsp :: env where
  "env_nbsp = \<lparr>keylist = Inr keyfile_nbsp,
               net = (\<lambda>_. NetworkFailure ''offline''), regex = (\<lambda>_ _ _. False)\<rparr>"

text \<open>The same, with the key file missing.\<close>

definition env_nofile :: env where
  "env_nofile = \<lparr>keylist = Inl ''ENOENT: no such file or directory, open .keylist'',
                 net = (\<lambda>_. NetworkFailure ''offline''), regex = (\<lambda>_ _ _. False)\<rparr>"

text \<open>A connected store that already holds one IBM price record.\<close>

definition ibm_doc :: StockData where
  "ibm_doc = \<lparr>symbol = ''IBM'', date = ''2025-12-23'', open_price = Num 300, high = Num 305,
              low = Num 299, close = Num 304, volume = Num 1000\<rparr>"

definition ibm_cached :: state where
  "ibm_cached = init_state\<lparr>globalClient := True, stocks := (\<lambda>_. [])(''stock-IBM'' := [ibm_doc])\<rparr>"

text \<open>
  A connected store with three articles: one at the first minute of 21 December 2025,
  one in the last minute of 22 December (at 23:59:30), and one the day after.
\<close>

definition article :: "string \<Rightarrow> string \<Rightarrow> string \<Rightarrow> NewsItem" where
  "article t ttl summ =
     \<lparr>title = ttl, url = ''https://example.org/a'', time_published = t, authors = [],
      summary = summ, banner_image = None, source = ''Wire'', category_within_source = ''n/a'',
      source_domain = ''example.org'', topics = [], overall_sentiment_score = Num 0,
      overall_sentiment_label = ''Neutral'', ticker_sentiment = []\<rparr>"

definition news_a :: NewsItem where
  "news_a = article ''20251221T000015'' ''Trading volumes rise'' ''Markets opened higher''"

definition news_b :: NewsItem where
  "news_b = article ''20251222T235930'' ''Late edition'' ''Evening trading wrap''"

definition news_c :: NewsItem where
  "news_c = article ''20251223T101500'' ''Next day'' ''Nothing about markets''"

definition news_store :: state where
  "news_store = init_state\<lparr>globalClient := True, news := [news_a, news_b, news_c]\<rparr>"

text \<open>An environment whose matcher, for the pattern \<open>trading\<close> with option \<open>i\<close>,
  accepts the two texts of the scenario that contain the word in either case.\<close>

definition env_news :: env where
  "env_news = \<lparr>keylist = Inl ''ENOENT: no such file or directory, open .keylist'',
               net = (\<lambda>_. NetworkFailure ''offline''),
               regex = (\<lambda>p opts t. p = ''trading'' \<and> opts = ''i''
                          \<and> (t = ''Trading volumes rise'' \<or> t = ''Evening trading wrap''))\<rparr>"

text \<open>A connected, empty store.\<close>

definition empty_store :: state where
  "empty_store = init_state\<lparr>globalClient := True\<rparr>"

text \<open>
  The provider answering every request with status 200 and the one-day series for
  23 December 2025, with the three-key file in place.
\<close>

definition aapl_day :: "(string \<times> string) list" where
  "aapl_day = [(''1. open'', ''270.97''), (''2. high'', ''272.45''), (''3. low'', ''269.56''),
               (''4. close'', ''272.36''), (''5. volume'', ''29360026'')]"

definition aapl_payload :: payload where
  "aapl_payload = \<lparr>p_Error = None, p_Error_Message = None,
                    p_Time_Series_Daily = Some [(''2025-12-23'', aapl_day)],
                    p_feed = FeedAbsent\<rparr>"

definition env_aapl :: env where
  "env_aapl = \<lparr>keylist = Inr keyfile_k3,
               net = (\<lambda>_. HttpResponse 200 ''OK'' (JsonBody aapl_payload)),
               regex = (\<lambda>_ _ _. False)\<rparr>"

text \<open>The record \<open>{symbol: "AAPL", date: "2025-12-23", open: 270.97, high: 272.45,
  low: 269.56, close: 272.36, volume: 29360026}\<close>; each number literal denotes the
  double nearest to it.\<close>

definition aapl_doc :: StockData where
  "aapl_doc = \<lparr>symbol = ''AAPL'', date = ''2025-12-23'',
               open_price = round_double (27097 / 100), high = round_double (27245 / 100),
               low = round_double (26956 / 100), close = round_double (27236 / 100),
               volume = round_double 29360026\<rparr>"

text \<open>
  The provider answering status 200 with an \<open>Error Message\<close> field and no series,
  and the provider answering status 200 with neither (as it does when the quota is
  used up); the three-key file is in place in both.
\<close>

definition env_api_error :: env where
  "env_api_error =
     \<lparr>keylist = Inr keyfile_k3,
      net = (\<lambda>_. HttpResponse 200 ''OK''
                    (JsonBody \<lparr>p_Error = None, p_Error_Message = Some ''Invalid API call'',
                               p_Time_Series_Daily = None, p_feed = FeedAbsent\<rparr>)),
      regex = (\<lambda>_ _ _. False)\<rparr>"

definition env_no_series :: env where
  "env_no_series =
     \<lparr>keylist = Inr keyfile_k3,
      net = (\<lambda>_. HttpResponse 200 ''OK''
                    (JsonBody \<lparr>p_Error = None, p_Error_Message = None,
                               p_Time_Series_Daily = None, p_feed = FeedAbsent\<rparr>)),
      regex = (\<lambda>_ _ _. False)\<rparr>"

text \<open>The key file present but empty.\<close>

definition env_emptyfile :: env where
  "env_emptyfile = \<lparr>keylist = Inr [],
                    net = (\<lambda>_. NetworkFailure ''offline''), regex = (\<lambda>_ _ _. False)\<rparr>"

text \<open>The provider reporting an error whose text happens to contain \<open>ENOENT\<close>, with
  the three-key file in place.\<close>

definition env_api_enoent :: env where
  "env_api_enoent =
     \<lparr>keylist = Inr keyfile_k3,
      net = (\<lambda>_. HttpResponse 200 ''OK''
                    (JsonBody \<lparr>p_Error = None, p_Error_Message = Some ''upstream ENOENT'',
                               p_Time_Series_Daily = None, p_feed = FeedAbsent\<rparr>)),
      regex = (\<lambda>_ _ _. False)\<rparr>"

section \<open>White space and trimming: properties\<close>

lemma skip_seqs_Nil: "skip_seqs ws [] = []"
proof -
  have "find (\<lambda>w. w \<noteq> [] \<and> prefix w []) ws = None" by (simp add: find_None_iff)
  then show ?thesis by (subst skip_seqs.simps) simp
qed

lemma skip_seqs_no_prefix: "w \<in> set ws \<Longrightarrow> w \<noteq> [] \<Longrightarrow> \<not> prefix w (skip_seqs ws s)"
proof (induction ws s rule: skip_seqs.induct)
  case (1 ws s)
  show ?case
  proof (cases "find (\<lambda>w. w \<noteq> [] \<and> prefix w s) ws")
    case None
    then have "skip_seqs ws s = s" by (subst skip_seqs.simps) simp
    moreover have "\<not> prefix w s" using None 1(2,3) by (auto simp: find_None_iff)
    ultimately show ?thesis by simp
  next
    case (Some w')
    then have "skip_seqs ws s = skip_seqs ws (drop (length w') s)"
      by (subst skip_seqs.simps) simp
    then show ?thesis using 1(1)[OF Some 1(2,3)] by simp
  qed
qed

lemma skip_seqs_suffix: "suffix (skip_seqs ws s) s"
proof (induction ws s rule: skip_seqs.induct)
  case (1 ws s)
  show ?case
  proof (cases "find (\<lambda>w. w \<noteq> [] \<and> prefix w s) ws")
    case None
    then have "skip_seqs ws s = s" by (subst skip_seqs.simps) simp
    then show ?thesis by simp
  next
    case (Some w')
    then have "skip_seqs ws s = skip_seqs ws (drop (length w') s)"
      by (subst skip_seqs.simps) simp
    moreover have "suffix (drop (length w') s) s" by (rule suffix_drop)
    ultimately show ?thesis using 1[OF Some] by (metis suffix_order.trans)
  qed
qed

lemma skip_seqs_concat:
  "skip_seqs ws s = [] \<Longrightarrow> \<exists>ps. set ps \<subseteq> set ws \<and> [] \<notin> set ps \<and> s = concat ps"
proof (induction ws s rule: skip_seqs.induct)
  case (1 ws s)
  show ?case
  proof (cases "find (\<lambda>w. w \<noteq> [] \<and> prefix w s) ws")
    case None
    then have "skip_seqs ws s = s" by (subst skip_seqs.simps) simp
    then have "s = concat []" using 1(2) by simp
    then show ?thesis by (metis empty_iff empty_set empty_subsetI)
  next
    case (Some w')
    then have e: "skip_seqs ws s = skip_seqs ws (drop (length w') s)"
      by (subst skip_seqs.simps) simp
    from Some have w': "w' \<in> set ws" "w' \<noteq> []" "prefix w' s"
      by (auto simp: find_Some_iff)
    from 1(1)[OF Some] e 1(2) obtain ps where
      ps: "set ps \<subseteq> set ws" "[] \<notin> set ps" "drop (length w') s = concat ps" by auto
    have "s = w' @ drop (length w') s" using w'(3) by (auto simp: prefix_def)
    then have "s = concat (w' # ps)" using ps(3) by simp
    moreover have "set (w' # ps) \<subseteq> set ws" "[] \<notin> set (w' # ps)" using ps w' by auto
    ultimately show ?thesis by blast
  qed
qed

lemma concat_skip_seqs:
  assumes pf: "\<forall>a\<in>set ws. \<forall>b\<in>set ws. prefix a b \<longrightarrow> a = b"
  shows "set ps \<subseteq> set ws \<Longrightarrow> skip_seqs ws (concat ps) = []"
proof (induction ps)
  case Nil
  then show ?case by (simp add: skip_seqs_Nil)
next
  case (Cons p ps)
  show ?case
  proof (cases "p = []")
    case True
    then show ?thesis using Cons by simp
  next
    case False
    let ?s = "p @ concat ps"
    have p: "p \<in> set ws" using Cons.prems by simp
    have "find (\<lambda>w. w \<noteq> [] \<and> prefix w ?s) ws \<noteq> None"
      using p False by (auto simp: find_None_iff)
    then obtain w where f: "find (\<lambda>w. w \<noteq> [] \<and> prefix w ?s) ws = Some w" by auto
    then have w: "w \<in> set ws" "prefix w ?s" by (auto simp: find_Some_iff)
    have "prefix p ?s" by simp
    with w(2) have "prefix w p \<or> prefix p w" by (rule prefix_same_cases)
    then have "w = p" using pf w(1) p by auto
    then have "skip_seqs ws ?s = skip_seqs ws (concat ps)"
      using f by (subst skip_seqs.simps) simp
    then show ?thesis using Cons by simp
  qed
qed

lemma js_white_space_nonempty: "[] \<notin> set js_white_space"
  by (simp add: js_white_space_def)

lemma js_white_space_prefix_free:
  "\<forall>a\<in>set js_white_space. \<forall>b\<in>set js_white_space. prefix a b \<longrightarrow> a = b"
proof -
  have "list_all (\<lambda>a. list_all (\<lambda>b. prefix a b \<longrightarrow> a = b) js_white_space) js_white_space"
    by code_simp
  then show ?thesis by (simp add: list_all_iff)
qed

lemma skip_ws_Nil_iff:
  "skip_ws l = [] \<longleftrightarrow> (\<exists>ps. set ps \<subseteq> set js_white_space \<and> l = concat ps)"
  unfolding skip_ws_def
  using skip_seqs_concat[of js_white_space l] concat_skip_seqs[OF js_white_space_prefix_free]
  by blast

lemma trim_eq_Nil: "trim l = [] \<longleftrightarrow> skip_ws l = []"
proof
  assume "skip_ws l = []"
  then show "trim l = []" by (simp add: trim_def skip_seqs_Nil)
next
  assume t: "trim l = []"
  let ?t = "skip_ws l"
  show "?t = []"
  proof (rule ccontr)
    assume n: "?t \<noteq> []"
    from t have "skip_seqs (map rev js_white_space) (rev ?t) = []" by (simp add: trim_def)
    then obtain ps where ps: "set ps \<subseteq> set (map rev js_white_space)" "[] \<notin> set ps"
      "rev ?t = concat ps" using skip_seqs_concat by blast
    from ps(3) n obtain p ps' where c: "ps = ps' @ [p]" by (cases ps rule: rev_cases) auto
    then have "rev ?t = concat ps' @ p" using ps(3) by simp
    then have "?t = rev p @ rev (concat ps')" by (metis rev_append rev_rev_ident)
    then have "prefix (rev p) ?t" by (metis prefixI)
    moreover have "rev p \<in> set js_white_space" "rev p \<noteq> []" using ps(1,2) c by auto
    ultimately show False using skip_seqs_no_prefix[of "rev p" js_white_space l]
      by (simp add: skip_ws_def)
  qed
qed

lemma trim_prefix_skip: "prefix (trim l) (skip_ws l)"
proof -
  have "suffix (skip_seqs (map rev js_white_space) (rev (skip_ws l))) (rev (skip_ws l))"
    by (rule skip_seqs_suffix)
  then show ?thesis unfolding trim_def by (simp add: suffix_to_prefix)
qed

lemma trim_subset: "set (trim l) \<subseteq> set l"
proof -
  have "set (trim l) \<subseteq> set (skip_ws l)" using trim_prefix_skip by (rule set_mono_prefix)
  moreover have "set (skip_ws l) \<subseteq> set l"
    unfolding skip_ws_def using skip_seqs_suffix by (rule set_mono_suffix)
  ultimately show ?thesis by blast
qed

lemma skip_seqs_split:
  "\<exists>ps. set ps \<subseteq> set ws \<and> s = concat ps @ skip_seqs ws s"
proof (induction ws s rule: skip_seqs.induct)
  case (1 ws s)
  show ?case
  proof (cases "find (\<lambda>w. w \<noteq> [] \<and> prefix w s) ws")
    case None
    then have "skip_seqs ws s = s" by (subst skip_seqs.simps) simp
    then have "set [] \<subseteq> set ws \<and> s = concat [] @ skip_seqs ws s" by simp
    then show ?thesis by blast
  next
    case (Some w')
    then have e: "skip_seqs ws s = skip_seqs ws (drop (length w') s)"
      by (subst skip_seqs.simps) simp
    from Some have w': "w' \<in> set ws" "prefix w' s"
      by (auto simp: find_Some_iff)
    from 1[OF Some] obtain ps where
      ps: "set ps \<subseteq> set ws" "drop (length w') s = concat ps @ skip_seqs ws (drop (length w') s)"
      by auto
    have "s = w' @ drop (length w') s" using w'(2) by (auto simp: prefix_def)
    then have "s = concat (w' # ps) @ skip_seqs ws s" using ps(2) e by simp
    moreover have "set (w' # ps) \<subseteq> set ws" using ps(1) w'(1) by simp
    ultimately show ?thesis by blast
  qed
qed

text \<open>What \<open>trim\<close> removes is white space, and what it keeps neither begins nor ends
  with white space.\<close>

lemma trim_decomp:
  "\<exists>ps qs. set ps \<subseteq> set js_white_space \<and> set qs \<subseteq> set js_white_space
      \<and> l = concat ps @ trim l @ concat qs"
proof -
  obtain ps where ps: "set ps \<subseteq> set js_white_space" "l = concat ps @ skip_ws l"
    unfolding skip_ws_def using skip_seqs_split by blast
  obtain rs where rs: "set rs \<subseteq> set (map rev js_white_space)"
    "rev (skip_ws l) = concat rs @ rev (trim l)"
    using skip_seqs_split[of "map rev js_white_space" "rev (skip_ws l)"]
    by (auto simp: trim_def)
  have "skip_ws l = rev (concat rs @ rev (trim l))" using rs(2) by (metis rev_rev_ident)
  then have "skip_ws l = trim l @ concat (map rev (rev rs))" by (simp add: rev_concat)
  moreover have "set (map rev (rev rs)) \<subseteq> set js_white_space" using rs(1) by auto
  ultimately show ?thesis using ps by (metis append.assoc)
qed

lemma trim_ends:
  assumes "w \<in> set js_white_space"
  shows "\<not> prefix w (trim l)" and "\<not> suffix w (trim l)"
proof -
  have w: "w \<noteq> []" using assms js_white_space_nonempty by auto
  have "\<not> prefix w (skip_ws l)"
    unfolding skip_ws_def using assms w by (rule skip_seqs_no_prefix)
  then show "\<not> prefix w (trim l)" using trim_prefix_skip[of l] by (metis prefix_order.trans)
  have "\<not> prefix (rev w) (skip_seqs (map rev js_white_space) (rev (skip_ws l)))"
    using assms w by (intro skip_seqs_no_prefix) auto
  then show "\<not> suffix w (trim l)" by (simp add: trim_def suffix_to_prefix)
qed

lemma skip_ws_start:
  assumes "c \<notin> set (map hd js_white_space)"
  shows "skip_ws (c # s) = c # s"
proof -
  have "find (\<lambda>w. w \<noteq> [] \<and> prefix w (c # s)) js_white_space = None"
    unfolding find_None_iff
  proof (intro notI, elim exE conjE)
    fix w assume w: "w \<in> set js_white_space" "w \<noteq> []" "prefix w (c # s)"
    from w(2,3) have "hd w = c" by (cases w) auto
    then show False using w(1) assms by auto
  qed
  then show ?thesis unfolding skip_ws_def by (subst skip_seqs.simps) simp
qed

section \<open>Rounding to a double: properties\<close>

lemma pow2_powi: "pow2 e = power_int 2 e"
  by (simp add: pow2_def power_int_def power_inverse [symmetric] inverse_eq_divide power_one_over)

lemma pow2_pos: "0 < pow2 e"
  by (simp add: pow2_powi)

lemma pow2_add: "pow2 (a + b) = pow2 a * pow2 b"
  by (simp add: pow2_powi power_int_add)

lemma pow2_diff: "pow2 (a - b) = pow2 a / pow2 b"
  by (simp add: pow2_powi power_int_diff)

lemma pow2_mono: "a \<le> b \<Longrightarrow> pow2 a \<le> pow2 b"
  by (simp add: pow2_powi power_int_increasing)

lemma pow2_nat: "0 \<le> k \<Longrightarrow> pow2 k = of_int (2 ^ nat k)"
  by (simp add: pow2_def)

lemma ilog2_bounds:
  assumes "0 < x"
  shows "pow2 (ilog2 x) \<le> x \<and> x < pow2 (ilog2 x + 1)"
proof -
  obtain a b where q: "quotient_of x = (a, b)" by (cases "quotient_of x")
  then have b: "0 < b" by (rule quotient_of_denom_pos)
  have x: "x = of_int a / of_int b" using q by (rule quotient_of_div)
  have a: "0 < a" using assms b x by (simp add: zero_less_divide_iff)
  let ?la = "bitlen a" and ?lb = "bitlen b"
  have la: "1 \<le> ?la" "2 ^ nat (?la - 1) \<le> a" "a < 2 ^ nat ?la"
    using bitlen_bounds[OF a] a by (auto simp: bitlen_alt_def)
  have lb: "1 \<le> ?lb" "2 ^ nat (?lb - 1) \<le> b" "b < 2 ^ nat ?lb"
    using bitlen_bounds[OF b] b by (auto simp: bitlen_alt_def)
  have ra: "pow2 (?la - 1) \<le> of_int a" "of_int a < pow2 ?la"
    using la by (simp_all add: pow2_nat del: of_int_power)
  have rb: "pow2 (?lb - 1) \<le> of_int b" "of_int b < pow2 ?lb"
    using lb by (simp_all add: pow2_nat del: of_int_power)
  have lo: "pow2 (?la - ?lb - 1) \<le> x"
  proof -
    have "pow2 (?la - 1) / pow2 ?lb \<le> of_int a / of_int b"
      using ra(1) rb(2) a b pow2_pos[of "?la - 1"] by (intro frac_le) simp_all
    moreover have "pow2 (?la - 1) / pow2 ?lb = pow2 (?la - ?lb - 1)"
      by (simp add: pow2_diff [symmetric] algebra_simps)
    ultimately show ?thesis using x by simp
  qed
  have hi: "x < pow2 (?la - ?lb + 1)"
  proof -
    have "of_int a / of_int b < pow2 ?la / pow2 (?lb - 1)"
      using ra(2) rb(1) a b pow2_pos[of "?lb - 1"] by (intro frac_less) simp_all
    moreover have "pow2 ?la / pow2 (?lb - 1) = pow2 (?la - ?lb + 1)"
      by (simp add: pow2_diff [symmetric] algebra_simps)
    ultimately show ?thesis using x by simp
  qed
  show ?thesis
  proof (cases "pow2 (?la - ?lb) \<le> x")
    case True
    then show ?thesis using hi q by (simp add: ilog2_def)
  next
    case False
    then show ?thesis using lo q by (simp add: ilog2_def)
  qed
qed

lemma round_half_even_error: "\<bar>of_int (round_half_even r) - r\<bar> \<le> 1 / 2"
proof -
  have "of_int \<lfloor>r\<rfloor> \<le> r" "r < of_int \<lfloor>r\<rfloor> + 1" by linarith+
  then show ?thesis by (auto simp: round_half_even_def Let_def)
qed

lemma round_half_even_mono_int: "of_int k \<le> r \<Longrightarrow> k \<le> round_half_even r"
  and round_half_even_le_int: "r \<le> of_int k \<Longrightarrow> round_half_even r \<le> k"
proof -
  have f: "of_int \<lfloor>r\<rfloor> \<le> r" "r < of_int \<lfloor>r\<rfloor> + 1" by linarith+
  have g: "\<lfloor>r\<rfloor> \<le> round_half_even r" by (simp add: round_half_even_def Let_def)
  show "of_int k \<le> r \<Longrightarrow> k \<le> round_half_even r"
  proof -
    assume "of_int k \<le> r"
    then have "k \<le> \<lfloor>r\<rfloor>" by (simp add: le_floor_iff)
    then show ?thesis using g by simp
  qed
  show "r \<le> of_int k \<Longrightarrow> round_half_even r \<le> k"
  proof -
    assume a: "r \<le> of_int k"
    then have fk: "\<lfloor>r\<rfloor> \<le> k" by (simp add: floor_le_iff)
    show ?thesis
    proof (cases "\<lfloor>r\<rfloor> = k")
      case True
      then have "r = of_int \<lfloor>r\<rfloor>" using a f by simp
      then have "r - of_int \<lfloor>r\<rfloor> = 0" by simp
      then show ?thesis using True by (simp add: round_half_even_def Let_def)
    next
      case False
      then have "\<lfloor>r\<rfloor> + 1 \<le> k" using fk by simp
      then show ?thesis by (auto simp: round_half_even_def Let_def)
    qed
  qed
qed

text \<open>A finite result is a multiple m * 2^q of the spacing with 0 <= m <= 2^53, at most
  half a spacing away from x, and below 2^1024.\<close>

lemma round_double_finite:
  assumes "0 < x" and "round_double x = Num v"
  shows "\<exists>m. v = of_int m * pow2 (max (ilog2 x - 52) (- 1074)) \<and> 0 \<le> m \<and> m \<le> 2 ^ 53
           \<and> \<bar>v - x\<bar> \<le> pow2 (max (ilog2 x - 52) (- 1074)) / 2 \<and> v < pow2 1024"
proof -
  define q where "q = max (ilog2 x - 52) (- 1074)"
  define m where "m = round_half_even (x / pow2 q)"
  have qp: "0 < pow2 q" by (rule pow2_pos)
  have v: "v = of_int m * pow2 q" "v < pow2 1024"
    using assms by (auto simp: round_double_def Let_def q_def m_def split: if_splits)
  have "0 \<le> x / pow2 q" using assms(1) qp by simp
  then have m0: "0 \<le> m" unfolding m_def using round_half_even_mono_int[of 0] by simp
  have "x < pow2 (ilog2 x + 1)" using ilog2_bounds[OF assms(1)] by simp
  also have "\<dots> \<le> pow2 (q + 53)" by (rule pow2_mono) (simp add: q_def)
  also have "\<dots> = pow2 q * 2 ^ 53"
  proof -
    have "pow2 53 = 2 ^ 53" by (simp add: pow2_def)
    then show ?thesis by (simp add: pow2_add)
  qed
  finally have "x / pow2 q \<le> of_int (2 ^ 53)" using qp by (simp add: field_simps)
  then have m53: "m \<le> 2 ^ 53" unfolding m_def by (rule round_half_even_le_int)
  have "\<bar>of_int m - x / pow2 q\<bar> \<le> 1 / 2" unfolding m_def by (rule round_half_even_error)
  then have "\<bar>of_int m - x / pow2 q\<bar> * pow2 q \<le> 1 / 2 * pow2 q"
    using qp by (intro mult_right_mono) simp_all
  moreover have "\<bar>of_int m - x / pow2 q\<bar> * pow2 q = \<bar>v - x\<bar>"
  proof -
    have "(of_int m - x / pow2 q) * pow2 q = v - x"
      using qp by (simp add: v(1) left_diff_distrib)
    then have "\<bar>v - x\<bar> = \<bar>of_int m - x / pow2 q\<bar> * \<bar>pow2 q\<bar>"
      by (simp only: abs_mult [symmetric])
    then show ?thesis using qp by simp
  qed
  ultimately have "\<bar>v - x\<bar> \<le> pow2 q / 2" by simp
  then show ?thesis using v m0 m53 unfolding q_def by blast
qed

lemma pow2_strict_mono: "a < b \<Longrightarrow> pow2 a < pow2 b"
  by (simp add: pow2_powi power_int_strict_increasing)

lemma ilog2_unique:
  assumes "pow2 e \<le> x" and "x < pow2 (e + 1)"
  shows "ilog2 x = e"
proof -
  have x: "0 < x" using assms(1) pow2_pos[of e] by simp
  note b = ilog2_bounds[OF x]
  have "\<not> e + 1 \<le> ilog2 x"
  proof
    assume "e + 1 \<le> ilog2 x"
    then have "pow2 (e + 1) \<le> pow2 (ilog2 x)" by (rule pow2_mono)
    then show False using b assms(2) by simp
  qed
  moreover have "\<not> ilog2 x + 1 \<le> e"
  proof
    assume "ilog2 x + 1 \<le> e"
    then have "pow2 (ilog2 x + 1) \<le> pow2 e" by (rule pow2_mono)
    then show False using b assms(1) by simp
  qed
  ultimately show ?thesis by simp
qed

lemma ilog2_mono_ge: "pow2 e \<le> x \<Longrightarrow> e \<le> ilog2 x"
proof -
  assume a: "pow2 e \<le> x"
  then have x: "0 < x" using pow2_pos[of e] by simp
  show "e \<le> ilog2 x"
  proof (rule ccontr)
    assume "\<not> e \<le> ilog2 x"
    then have "ilog2 x + 1 \<le> e" by simp
    then have "pow2 (ilog2 x + 1) \<le> pow2 e" by (rule pow2_mono)
    then show False using ilog2_bounds[OF x] a by simp
  qed
qed

lemma round_half_even_int: "round_half_even (of_int k) = k"
  by (simp add: round_half_even_def)

text \<open>Overflow: from 2^1024 on the result is the infinity.\<close>

lemma round_double_overflow:
  assumes "pow2 1024 \<le> x"
  shows "round_double x = PosInfinity"
proof -
  have x: "0 < x" using assms pow2_pos[of 1024] by simp
  define e where "e = ilog2 x"
  have e: "1024 \<le> e" unfolding e_def using assms by (rule ilog2_mono_ge)
  define q where "q = e - 52"
  have q: "max (ilog2 x - 52) (- 1074) = q" using e by (simp add: q_def e_def)
  have qp: "0 < pow2 q" by (rule pow2_pos)
  define m where "m = round_half_even (x / pow2 q)"
  have "pow2 e \<le> x" unfolding e_def using ilog2_bounds[OF x] by simp
  moreover have "pow2 e = pow2 q * of_int (2 ^ 52)"
  proof -
    have "pow2 52 = 2 ^ 52" by (simp add: pow2_def)
    moreover have "e = q + 52" by (simp add: q_def)
    ultimately show ?thesis by (simp add: pow2_add)
  qed
  ultimately have "of_int (2 ^ 52) \<le> x / pow2 q" using qp by (simp add: field_simps)
  then have "2 ^ 52 \<le> m" unfolding m_def by (rule round_half_even_mono_int)
  then have "of_int (2 ^ 52) \<le> (of_int m :: rat)" by (simp only: of_int_le_iff)
  then have "of_int (2 ^ 52) * pow2 q \<le> of_int m * pow2 q"
    using qp by (intro mult_right_mono) simp_all
  moreover have "of_int (2 ^ 52) * pow2 q = pow2 e"
  proof -
    have "pow2 52 = 2 ^ 52" by (simp add: pow2_def)
    moreover have "e = q + 52" by (simp add: q_def)
    ultimately show ?thesis by (simp add: pow2_add)
  qed
  moreover have "pow2 1024 \<le> pow2 e" using e by (rule pow2_mono)
  ultimately have "pow2 1024 \<le> of_int m * pow2 q" by simp
  then show ?thesis using x by (simp add: round_double_def q Let_def m_def)
qed

text \<open>Underflow: up to half the least subnormal the result is zero.\<close>

lemma round_double_underflow:
  assumes "x \<le> pow2 (- 1075)"
  shows "round_double x = Num 0"
proof (cases "0 < x")
  case False
  then show ?thesis by (simp add: round_double_def)
next
  case True
  have "ilog2 x \<le> - 1075"
  proof (rule ccontr)
    assume "\<not> ilog2 x \<le> - 1075"
    then have "- 1075 + 1 \<le> ilog2 x" by simp
    then have "pow2 (- 1075 + 1) \<le> pow2 (ilog2 x)" by (rule pow2_mono)
    moreover have "pow2 (- 1075) < pow2 (- 1075 + 1)" by (rule pow2_strict_mono) simp
    ultimately show False using ilog2_bounds[OF True] assms by simp
  qed
  then have q: "max (ilog2 x - 52) (- 1074) = - 1074" by simp
  have "pow2 (- 1075) = pow2 (- 1074) * (1 / 2)"
  proof -
    have "pow2 (- 1) = 1 / 2" by (simp add: pow2_def)
    moreover have "(- 1075 :: int) = - 1074 + (- 1)" by simp
    ultimately show ?thesis by (simp only: pow2_add)
  qed
  then have "x / pow2 (- 1074) \<le> 1 / 2" "0 < x / pow2 (- 1074)"
    using assms True pow2_pos[of "- 1074"] by (simp_all add: field_simps)
  moreover define r where "r = x / pow2 (- 1074)"
  ultimately have r: "r \<le> 1 / 2" "0 < r" by simp_all
  then have f: "\<lfloor>r\<rfloor> = 0" by (simp add: floor_eq_iff)
  have "round_half_even r = 0"
    using r by (auto simp: round_half_even_def f Let_def)
  moreover have "\<not> pow2 1024 \<le> 0" using pow2_pos[of 1024] by simp
  ultimately show ?thesis using True by (simp add: round_double_def q Let_def r_def [symmetric])
qed

text \<open>Integers up to 2^53 are doubles.\<close>

lemma round_double_int:
  assumes "0 \<le> n" and "n \<le> 2 ^ 53"
  shows "round_double (of_int n) = Num (of_int n)"
proof (cases "n = 0")
  case True
  then show ?thesis by (simp add: round_double_def)
next
  case False
  then have n: "0 < n" using assms(1) by simp
  then have x: "0 < (of_int n :: rat)" by simp
  define e where "e = ilog2 (of_int n)"
  have "pow2 e \<le> of_int n" unfolding e_def using ilog2_bounds[OF x] by simp
  moreover have "(of_int n :: rat) \<le> pow2 53" using assms(2) by (simp add: pow2_nat del: of_int_power) 
  moreover have "pow2 53 < pow2 54" by (rule pow2_strict_mono) simp
  ultimately have "pow2 e < pow2 54" by simp
  then have e53: "e \<le> 53" using pow2_mono[of 54 e] by (cases "54 \<le> e") simp_all
  have "pow2 0 \<le> of_int n" using n by (simp add: pow2_def)
  then have e0: "0 \<le> e" unfolding e_def by (rule ilog2_mono_ge)
  define q where "q = max (e - 52) (- 1074)"
  have q: "q = e - 52" using e0 by (simp add: q_def)
  show ?thesis
  proof (cases "e = 53")
    case True
    then have "pow2 53 \<le> of_int n" using \<open>pow2 e \<le> of_int n\<close> by simp
    then have "(of_int n :: rat) = of_int (2 ^ 53)"
      using \<open>(of_int n :: rat) \<le> pow2 53\<close> by (simp add: pow2_nat del: of_int_power)
    then have n53: "n = 2 ^ 53" by (simp only: of_int_eq_iff)
    have "ilog2 (of_int n) = 53" using True by (simp add: e_def)
    then have "ilog2 9007199254740992 = 53" by (simp add: n53)
    then show ?thesis
      by (simp add: n53 round_double_def Let_def pow2_def round_half_even_def)
  next
    case False
    then have e52: "e \<le> 52" using e53 by simp
    have p: "pow2 q * of_int (2 ^ nat (52 - e)) = 1"
    proof -
      have "pow2 (52 - e) = of_int (2 ^ nat (52 - e))" using e52 by (simp add: pow2_nat)
      moreover have "pow2 q * pow2 (52 - e) = pow2 0" by (simp add: q pow2_add [symmetric])
      ultimately show ?thesis by (simp add: pow2_def)
    qed
    have qp: "0 < pow2 q" by (rule pow2_pos)
    from p have inv: "of_int (2 ^ nat (52 - e)) = 1 / pow2 q"
      using qp by (simp add: field_simps)
    have "of_int n / pow2 q = of_int (n * 2 ^ nat (52 - e))"
      by (simp only: of_int_mult inv) simp
    then have m: "round_half_even (of_int n / pow2 q) = n * 2 ^ nat (52 - e)"
      by (simp only: round_half_even_int)
    have v: "of_int (n * 2 ^ nat (52 - e)) * pow2 q = (of_int n :: rat)"
      using p by (simp only: of_int_mult) (simp add: mult.assoc mult.commute)
    have lt: "(of_int n :: rat) < pow2 1024"
    proof -
      have "pow2 53 < pow2 1024" by (rule pow2_strict_mono) simp
      then show ?thesis using \<open>(of_int n :: rat) \<le> pow2 53\<close> by simp
    qed
    have "round_double (of_int n) =
       (let v = of_int (round_half_even (of_int n / pow2 q)) * pow2 q
        in if pow2 1024 \<le> v then PosInfinity else Num v)"
      using x by (simp add: round_double_def q_def e_def Let_def)
    then show ?thesis using lt by (simp only: m v Let_def) simp
  qed
qed

lemma floor_rat_numeral: "\<lfloor>numeral a / numeral b :: rat\<rfloor> = numeral a div numeral b"
  by (metis floor_divide_of_int_eq of_int_numeral)

lemma round_double_at:
  assumes "pow2 e \<le> x" and "x < pow2 (e + 1)"
  shows "round_double x =
     (if pow2 1024 \<le> of_int (round_half_even (x / pow2 (max (e - 52) (- 1074))))
                        * pow2 (max (e - 52) (- 1074))
      then PosInfinity
      else Num (of_int (round_half_even (x / pow2 (max (e - 52) (- 1074))))
                * pow2 (max (e - 52) (- 1074))))"
proof -
  have "0 < x" using assms(1) pow2_pos[of e] by simp
  then show ?thesis by (simp add: round_double_def ilog2_unique[OF assms] Let_def)
qed

text \<open>Known values: the doubles nearest to 0.1 and to the prices of the AAPL scenario,
  ties going to the even significand just above 2^53, the largest double and the first
  value that overflows, and the least subnormal.\<close>

lemma round_double_values:
  "round_double (1 / 10) = Num (3602879701896397 / 36028797018963968)"
  "round_double (27097 / 100) = Num (1191738663113851 / 4398046511104)"
  "round_double (27245 / 100) = Num (4792991087801139 / 17592186044416)"
  "round_double (26956 / 100) = Num (4742149670132777 / 17592186044416)"
  "round_double (27236 / 100) = Num (2395703895528571 / 8796093022208)"
  "round_double 9007199254740993 = Num 9007199254740992"
  "round_double 9007199254740995 = Num 9007199254740996"
  "round_double (2 ^ 1024 - 2 ^ 970 - 1) = Num (2 ^ 1024 - 2 ^ 971)"
  "round_double (2 ^ 1024 - 2 ^ 970) = PosInfinity"
  "round_double (3 / 10 ^ 324) = Num (1 / 2 ^ 1074)"
           apply (subst round_double_at[of "- 4"]; simp add: pow2_def round_half_even_def floor_rat_numeral Let_def)
          apply (subst round_double_at[of 8]; simp add: pow2_def round_half_even_def floor_rat_numeral Let_def)
         apply (subst round_double_at[of 8]; simp add: pow2_def round_half_even_def floor_rat_numeral Let_def)
        apply (subst round_double_at[of 8]; simp add: pow2_def round_half_even_def floor_rat_numeral Let_def)
       apply (subst round_double_at[of 8]; simp add: pow2_def round_half_even_def floor_rat_numeral Let_def)
      apply (subst round_double_at[of 53]; simp add: pow2_def round_half_even_def floor_rat_numeral Let_def)
     apply (subst round_double_at[of 53]; simp add: pow2_def round_half_even_def floor_rat_numeral Let_def)
    apply (subst round_double_at[of 1023]; simp add: pow2_def round_half_even_def floor_rat_numeral Let_def)
   apply (subst round_double_at[of 1023]; simp add: pow2_def round_half_even_def floor_rat_numeral Let_def)
  apply (subst round_double_at[of "- 1075"]; simp add: pow2_def round_half_even_def floor_rat_numeral Let_def)
  done

text \<open>The parsers on literals beyond the range or the precision of a double, and on
  input that begins with white space outside ASCII.\<close>

lemma skip_ws_padded:
  "skip_ws [CHR 0xC2, CHR 0xA0, CHR ''1'', CHR ''.'', CHR ''5''] = ''1.5''"
  "skip_ws [CHR 0xE2, CHR 0x80, CHR 0xA8, CHR ''-'', CHR ''1'', CHR ''2'', CHR ''a'', CHR ''b'', CHR ''c'']
     = ''-12abc''"
  by code_simp+

lemma parse_values:
  "parseFloat ''1e309'' = PosInfinity"
  "parseFloat ''-1e309'' = NegInfinity"
  "parseFloat ''1e-324'' = Num 0"
  "parseFloat ''-1e-324'' = NegZero"
  "parseFloat ''-0.0'' = NegZero"
  "parseFloat ''abc'' = NaN"
  "parseInt10 ''-0'' = NegZero"
  by (simp_all add: parseFloat_def parseInt10_def skip_ws_start js_white_space_def
      read_sign_def is_digit_def digits_val_def
      read_exponent_def pow10_def signed_def negate_def Let_def
      round_double_overflow round_double_underflow pow2_def)

lemma parse_values2:
  "parseFloat ''270.97'' = round_double (27097 / 100)"
  "parseFloat ([CHR 0xC2, CHR 0xA0] @ ''1.5'') = Num (3 / 2)"
  "parseInt10 ''9007199254740993'' = Num 9007199254740992"
  "parseInt10 ([CHR 0xE2, CHR 0x80, CHR 0xA8] @ ''-12abc'') = Num (- 12)"
     apply (simp add: parseFloat_def skip_ws_start js_white_space_def
      read_sign_def is_digit_def digits_val_def read_exponent_def pow10_def signed_def Let_def)
    apply (simp add: parseFloat_def skip_ws_padded
      read_sign_def is_digit_def digits_val_def read_exponent_def pow10_def signed_def Let_def)
    apply (subst round_double_at[of 0]; simp add: pow2_def round_half_even_def floor_rat_numeral Let_def)
   apply (simp add: parseInt10_def skip_ws_start js_white_space_def
      read_sign_def is_digit_def digits_val_def signed_def Let_def)
    apply (subst round_double_at[of 53]; simp add: pow2_def round_half_even_def floor_rat_numeral Let_def)
   apply (simp add: parseInt10_def skip_ws_padded
      read_sign_def is_digit_def digits_val_def signed_def negate_def Let_def)
    apply (subst round_double_at[of 3]; simp add: pow2_def round_half_even_def floor_rat_numeral Let_def)
  done

section \<open>Key rotation: properties\<close>

lemma getKey_loaded: "apiKeys s \<noteq> [] \<Longrightarrow> getKey e s = next_key s"
  by (simp add: getKey_def)

lemma getKeys_loaded:
  assumes "key_inv s" "apiKeys s \<noteq> []"
  shows "getKeys es s =
    (Inr (map (\<lambda>j. apiKeys s ! ((currentKeyIndex s + j) mod length (apiKeys s))) [0..<length es]),
     s\<lparr>currentKeyIndex := (currentKeyIndex s + length es) mod length (apiKeys s)\<rparr>)"
  using assms
proof (induction es arbitrary: s)
  case Nil
  then show ?case by (simp add: key_inv_def)
next
  case (Cons e es)
  let ?N = "length (apiKeys s)"
  let ?s1 = "s\<lparr>currentKeyIndex := Suc (currentKeyIndex s) mod ?N\<rparr>"
  have g: "getKey e s = (Inr (apiKeys s ! currentKeyIndex s), ?s1)"
    using Cons.prems by (simp add: getKey_loaded next_key_def key_inv_def)
  have inv1: "key_inv ?s1" "apiKeys ?s1 \<noteq> []"
    using Cons.prems by (auto simp: key_inv_def)
  have i: "currentKeyIndex s < ?N" using Cons.prems by (auto simp: key_inv_def)
  have m: "\<And>j. (Suc (currentKeyIndex s) mod ?N + j) mod ?N = (currentKeyIndex s + Suc j) mod ?N"
    by (metis add_Suc add_Suc_right mod_add_left_eq)
  have l: "[0..<length (e # es)] = 0 # map Suc [0..<length es]"
    by (simp add: upt_conv_Cons map_Suc_upt del: upt_Suc)
  show ?case
    unfolding getKeys.simps g l using Cons.IH[OF inv1] i
    by (simp add: m o_def)
qed


lemma split_nl_nonempty: "split_nl s \<noteq> []"
  by (induction s) (auto split: list.splits)

lemma split_nl_no_lf: "l \<in> set (split_nl s) \<Longrightarrow> CHR 0x0A \<notin> set l"
proof (induction s arbitrary: l)
  case Nil
  then show ?case by simp
next
  case (Cons c cs)
  then show ?case
    using split_nl_nonempty[of cs]
    by (cases "split_nl cs") (auto split: if_splits)
qed

lemma parse_keylist_entries:
  assumes "k \<in> set (parse_keylist content)"
  shows "k \<noteq> [] \<and> CHR 0x0A \<notin> set k
         \<and> (\<forall>w\<in>set js_white_space. \<not> prefix w k \<and> \<not> suffix w k)
         \<and> (\<exists>l\<in>set (split_nl content). \<exists>ps qs.
                set ps \<subseteq> set js_white_space \<and> set qs \<subseteq> set js_white_space
                \<and> l = concat ps @ k @ concat qs)"
proof -
  from assms obtain l where l: "l \<in> set (split_nl content)" "k = trim l" "k \<noteq> []"
    by (auto simp: parse_keylist_def)
  have "CHR 0x0A \<notin> set k" using trim_subset[of l] split_nl_no_lf[OF l(1)] l(2) by auto
  moreover have "\<forall>w\<in>set js_white_space. \<not> prefix w k \<and> \<not> suffix w k"
    using trim_ends[of _ l] l(2) by simp
  moreover have "\<exists>ps qs. set ps \<subseteq> set js_white_space \<and> set qs \<subseteq> set js_white_space
                \<and> l = concat ps @ k @ concat qs"
    using trim_decomp[of l] l(2) by simp
  ultimately show ?thesis using l(1,3) by blast
qed

lemma parse_keylist_Nil:
  "parse_keylist content = []
   \<longleftrightarrow> (\<forall>l\<in>set (split_nl content). \<exists>ps. set ps \<subseteq> set js_white_space \<and> l = concat ps)"
  by (simp add: parse_keylist_def filter_empty_conv trim_eq_Nil skip_ws_Nil_iff)

lemma getKeys_no_reload:
  assumes "apiKeys s \<noteq> []"
  shows "apiKeys (snd (getKeys es s)) = apiKeys s \<and> trace (snd (getKeys es s)) = trace s
         \<and> (\<exists>ks. fst (getKeys es s) = Inr ks \<and> length ks = length es)"
  using assms
proof (induction es arbitrary: s)
  case Nil
  then show ?case by simp
next
  case (Cons e es)
  obtain k s1 where g: "getKey e s = (Inr k, s1)" and s1: "apiKeys s1 = apiKeys s" "trace s1 = trace s"
    using Cons.prems by (simp add: getKey_def next_key_def)
  from Cons.IH[of s1] s1 Cons.prems
  obtain ks where "fst (getKeys es s1) = Inr ks" "length ks = length es"
    "apiKeys (snd (getKeys es s1)) = apiKeys s" "trace (snd (getKeys es s1)) = trace s"
    by auto
  then show ?case using g by (cases "getKeys es s1") auto
qed

lemma getKeys_env_irrelevant:
  assumes "apiKeys s \<noteq> []" "length es = length es'"
  shows "getKeys es s = getKeys es' s"
  using assms(2,1)
proof (induction es es' arbitrary: s rule: list_induct2)
  case Nil
  then show ?case by simp
next
  case (Cons e es e' es')
  obtain k s1 where n: "next_key s = (Inr k, s1)" and s1: "apiKeys s1 \<noteq> []"
    using Cons.prems by (simp add: next_key_def)
  have g: "getKey e s = (Inr k, s1)" "getKey e' s = (Inr k, s1)"
    using Cons.prems n by (simp_all add: getKey_def)
  show ?case using Cons.IH[OF s1] by (simp add: g)
qed

lemma window_map:
  assumes "k + n \<le> m"
  shows "take n (drop k (map f [0..<m])) = map f [k..<k + n]"
proof -
  have "take n (drop k [0..<m]) = [k..<k + n]"
    using assms by (simp add: take_upt)
  then show ?thesis by (simp add: take_map drop_map)
qed

lemma rotate_as_map:
  assumes "pool \<noteq> []"
  shows "rotate k pool = map (\<lambda>j. pool ! (j mod length pool)) [k..<k + length pool]"
proof (rule nth_equalityI)
  show "length (rotate k pool) = length (map (\<lambda>j. pool ! (j mod length pool)) [k..<k + length pool])"
    by simp
next
  fix i assume "i < length (rotate k pool)"
  then have i: "i < length pool" by simp
  then show "rotate k pool ! i = map (\<lambda>j. pool ! (j mod length pool)) [k..<k + length pool] ! i"
    by (simp add: nth_rotate)
qed

lemma mset_rotate1_eq: "mset (rotate1 xs) = mset xs"
  by (cases xs) simp_all

lemma mset_rotate_eq: "mset (rotate k xs) = mset xs"
  by (induction k) (simp_all add: mset_rotate1_eq)

text \<open>
  Claim C3. Starting with an empty pool and the cursor at 0, let the first call load a
  non-empty pool of size N from the key file. Then any number of consecutive calls
  succeed, call number j (from 0) returns pool entry \<open>j mod N\<close>, every window of N
  consecutive calls returns the pool rotated to the window's start (so each entry once,
  in the pool's cyclic order), and call \<open>k + N\<close> returns what call \<open>k\<close> returned.
  The later calls may see any key file or none.
\<close>

theorem getKey_round_robin:
  assumes "apiKeys s = []" and "currentKeyIndex s = 0"
    and "keylist e = Inr content" and "parse_keylist content = pool" and "pool \<noteq> []"
  shows "\<exists>ks s'. getKeys (e # es) s = (Inr ks, s')
           \<and> ks = map (\<lambda>j. pool ! (j mod length pool)) [0..<Suc (length es)]
           \<and> apiKeys s' = pool
           \<and> (\<forall>k. k + length pool \<le> length ks \<longrightarrow>
                  take (length pool) (drop k ks) = rotate k pool
                  \<and> mset (take (length pool) (drop k ks)) = mset pool)
           \<and> (\<forall>k. k + length pool < length ks \<longrightarrow> ks ! (k + length pool) = ks ! k)"
proof -
  let ?N = "length pool"
  let ?f = "\<lambda>j. pool ! (j mod ?N)"
  define i1 where "i1 = 1 mod ?N"
  let ?s1 = "s\<lparr>trace := trace s @ [ReadKeylist], apiKeys := pool\<rparr>"
  let ?s2 = "?s1\<lparr>currentKeyIndex := i1\<rparr>"
  have N: "0 < ?N" using assms(5) by simp
  have g: "getKey e s = (Inr (pool ! 0), ?s2)"
    using assms N by (simp add: getKey_def next_key_def i1_def)
  have lt: "i1 < ?N" unfolding i1_def by (rule mod_less_divisor) (rule N)
  have inv: "key_inv ?s2" "apiKeys ?s2 \<noteq> []"
    using assms(5) lt by (simp_all add: key_inv_def)
  let ?s3 = "?s2\<lparr>currentKeyIndex := (i1 + length es) mod ?N\<rparr>"
  have rest: "getKeys es ?s2 = (Inr (map (\<lambda>j. pool ! ((i1 + j) mod ?N)) [0..<length es]), ?s3)"
    using getKeys_loaded[OF inv, of es] by simp
  have shift: "\<And>j. (i1 + j) mod ?N = Suc j mod ?N"
    unfolding i1_def by (metis mod_add_left_eq plus_1_eq_Suc)
  have l: "[0..<Suc (length es)] = 0 # map Suc [0..<length es]"
    by (simp add: upt_conv_Cons map_Suc_upt del: upt_Suc)
  have ks: "getKeys (e # es) s = (Inr (map ?f [0..<Suc (length es)]), ?s3)"
    by (simp add: g rest l shift o_def del: upt_Suc)
  have win: "take ?N (drop k (map ?f [0..<Suc (length es)])) = rotate k pool"
    if "k + ?N \<le> Suc (length es)" for k
    using window_map[OF that, of ?f] rotate_as_map[OF assms(5), of k] by simp
  have per: "map ?f [0..<Suc (length es)] ! (k + ?N) = map ?f [0..<Suc (length es)] ! k"
    if "k + ?N < Suc (length es)" for k
  proof -
    have "k < Suc (length es)" using that by simp
    then show ?thesis using that by (simp add: nth_map_upt del: upt_Suc)
  qed
  show ?thesis
    apply (rule exI[of _ "map ?f [0..<Suc (length es)]"])
    apply (rule exI[of _ ?s3])
    using ks win per by (simp add: mset_rotate_eq del: upt_Suc)
qed

lemma parse_keyfile_k3: "parse_keylist keyfile_k3 = [''K1'', ''K2'', ''K3'']"
  by code_simp

text \<open>The scenario of claim C3: with the pool K1, K2, K3, five calls give
  K1, K2, K3, K1, K2.\<close>

theorem getKey_round_robin_witness:
  "fst (getKeys (replicate 5 env_k3) init_state) = Inr [''K1'', ''K2'', ''K3'', ''K1'', ''K2'']"
proof -
  have k: "keylist env_k3 = Inr keyfile_k3"
    by (simp add: env_k3_def)
  have r: "replicate 5 env_k3 = env_k3 # replicate 4 env_k3" by (simp add: numeral_eq_Suc)
  from getKey_round_robin[OF _ _ k parse_keyfile_k3, of init_state "replicate 4 env_k3"]
  obtain ks s' where "getKeys (env_k3 # replicate 4 env_k3) init_state = (Inr ks, s')"
     and "ks = map (\<lambda>j. [''K1'', ''K2'', ''K3''] ! (j mod 3)) [0..<5]"
    by (auto simp: init_state_def)
  then show ?thesis unfolding r by (simp add: upt_conv_Cons)
qed

lemma getKey_first_call:
  assumes "apiKeys s = []"
  shows "getKey e s =
    (case keylist e of
       Inl msg \<Rightarrow>
         (Inl (if str_includes msg ''No such file'' then ''.keylist file not found'' else msg),
          s\<lparr>trace := trace s @ [ReadKeylist]\<rparr>)
     | Inr content \<Rightarrow>
         if parse_keylist content = []
         then (Inl ''.keylist file is empty'',
               s\<lparr>trace := trace s @ [ReadKeylist], apiKeys := []\<rparr>)
         else next_key (s\<lparr>trace := trace s @ [ReadKeylist], apiKeys := parse_keylist content\<rparr>))"
  using assms by (simp add: getKey_def Let_def split: sum.splits)

lemma getKey_success_pool:
  assumes "getKey e s = (Inr k, s')"
  shows "apiKeys s' \<noteq> []"
proof (cases "apiKeys s = []")
  case True
  then show ?thesis
    using assms
    by (auto simp: getKey_first_call next_key_def split: sum.splits if_splits)
next
  case False
  then show ?thesis using assms by (auto simp: getKey_def next_key_def)
qed

lemma parse_keyfile_padded: "parse_keylist keyfile_padded = [''K1'', ''K2'']"
  by code_simp

lemma parse_keyfile_nbsp: "parse_keylist keyfile_nbsp = []"
  by code_simp

text \<open>
  Claim C9. A call that finds the pool empty reads the key file once. If the file
  cannot be read the call fails. If it can, the pool becomes the file's lines, trimmed,
  without the lines that are empty after trimming: every entry is non-empty, holds no
  line feed, neither begins nor ends with a white-space character, and is a line of
  the file without the white space around it. The call fails with
  \<open>.keylist file is empty\<close> exactly when every line of the file is made of white-space
  characters only, and returns a key otherwise. After any successful call, further
  calls do not read the file again: they leave the pool and the trace as they are,
  succeed, and return the same keys whatever the key file has become.
\<close>

theorem getKey_loads_once:
  "(apiKeys s = [] \<and> keylist e = Inl msg \<longrightarrow>
      (\<exists>err. getKey e s = (Inl err, s\<lparr>trace := trace s @ [ReadKeylist]\<rparr>)))
   \<and> (apiKeys s = [] \<and> keylist e = Inr content \<longrightarrow>
        trace (snd (getKey e s)) = trace s @ [ReadKeylist]
        \<and> apiKeys (snd (getKey e s)) = filter (\<lambda>l. l \<noteq> []) (map trim (split_nl content))
        \<and> (\<forall>k\<in>set (apiKeys (snd (getKey e s))).
              k \<noteq> [] \<and> CHR 0x0A \<notin> set k
              \<and> (\<forall>w\<in>set js_white_space. \<not> prefix w k \<and> \<not> suffix w k)
              \<and> (\<exists>l\<in>set (split_nl content). \<exists>ps qs.
                     set ps \<subseteq> set js_white_space \<and> set qs \<subseteq> set js_white_space
                     \<and> l = concat ps @ k @ concat qs))
        \<and> ((\<forall>l\<in>set (split_nl content). \<exists>ps. set ps \<subseteq> set js_white_space \<and> l = concat ps)
              \<longrightarrow> fst (getKey e s) = Inl ''.keylist file is empty'')
        \<and> (\<not> (\<forall>l\<in>set (split_nl content). \<exists>ps. set ps \<subseteq> set js_white_space \<and> l = concat ps)
              \<longrightarrow> (\<exists>k. fst (getKey e s) = Inr k)))
   \<and> (getKey e s = (Inr k, s') \<longrightarrow>
        (\<forall>es. apiKeys (snd (getKeys es s')) = apiKeys s'
            \<and> trace (snd (getKeys es s')) = trace s'
            \<and> (\<exists>ks. fst (getKeys es s') = Inr ks \<and> length ks = length es)
            \<and> (\<forall>es'. length es' = length es \<longrightarrow> getKeys es' s' = getKeys es s')))"
proof (intro conjI impI)
  assume "apiKeys s = [] \<and> keylist e = Inl msg"
  then show "\<exists>err. getKey e s = (Inl err, s\<lparr>trace := trace s @ [ReadKeylist]\<rparr>)"
    by (simp add: getKey_first_call)
next
  assume a: "apiKeys s = [] \<and> keylist e = Inr content"
  show "trace (snd (getKey e s)) = trace s @ [ReadKeylist]"
    using a by (simp add: getKey_first_call next_key_def)
  have pool: "apiKeys (snd (getKey e s)) = parse_keylist content"
    using a by (simp add: getKey_first_call next_key_def)
  have "parse_keylist content = filter (\<lambda>l. l \<noteq> []) (map trim (split_nl content))"
    by (simp add: parse_keylist_def)
  then show "apiKeys (snd (getKey e s)) = filter (\<lambda>l. l \<noteq> []) (map trim (split_nl content))"
    using pool by simp
  show "\<forall>k\<in>set (apiKeys (snd (getKey e s))).
              k \<noteq> [] \<and> CHR 0x0A \<notin> set k
              \<and> (\<forall>w\<in>set js_white_space. \<not> prefix w k \<and> \<not> suffix w k)
              \<and> (\<exists>l\<in>set (split_nl content). \<exists>ps qs.
                     set ps \<subseteq> set js_white_space \<and> set qs \<subseteq> set js_white_space
                     \<and> l = concat ps @ k @ concat qs)"
    unfolding pool using parse_keylist_entries[of _ content] by blast
  {
    assume "\<forall>l\<in>set (split_nl content). \<exists>ps. set ps \<subseteq> set js_white_space \<and> l = concat ps"
    then have "parse_keylist content = []" using parse_keylist_Nil[of content] by blast
    then show "fst (getKey e s) = Inl ''.keylist file is empty''"
      using a by (simp add: getKey_first_call)
  }
  {
    assume "\<not> (\<forall>l\<in>set (split_nl content). \<exists>ps. set ps \<subseteq> set js_white_space \<and> l = concat ps)"
    then have "parse_keylist content \<noteq> []" using parse_keylist_Nil[of content] by blast
    then show "\<exists>k. fst (getKey e s) = Inr k"
      using a by (simp add: getKey_first_call next_key_def)
  }
next
  assume "getKey e s = (Inr k, s')"
  then have p: "apiKeys s' \<noteq> []" by (rule getKey_success_pool)
  show "\<forall>es. apiKeys (snd (getKeys es s')) = apiKeys s'
            \<and> trace (snd (getKeys es s')) = trace s'
            \<and> (\<exists>ks. fst (getKeys es s') = Inr ks \<and> length ks = length es)
            \<and> (\<forall>es'. length es' = length es \<longrightarrow> getKeys es' s' = getKeys es s')"
    using getKeys_no_reload[OF p] getKeys_env_irrelevant[OF p] by blast
qed

text \<open>
  Instances of claim C9: a missing key file makes the first call fail; a key file that
  holds only a no-break space makes it fail with \<open>.keylist file is empty\<close>; the file
  whose lines are padded with a no-break space, a carriage return, a byte-order mark
  and an ideographic space loads the pool K1, K2 and returns K1; the three-key file
  loads the pool K1, K2, K3; and after that load two more calls, made while the file is
  missing, return K2 and K3 and add nothing to the trace.
\<close>

theorem getKey_loads_once_witness:
  "(\<exists>err. getKey env_nofile init_state = (Inl err, init_state\<lparr>trace := [ReadKeylist]\<rparr>))
   \<and> fst (getKey env_nbsp init_state) = Inl ''.keylist file is empty''
   \<and> apiKeys (snd (getKey env_padded init_state)) = [''K1'', ''K2'']
   \<and> fst (getKey env_padded init_state) = Inr ''K1''
   \<and> apiKeys (snd (getKey env_k3 init_state)) = [''K1'', ''K2'', ''K3'']
   \<and> fst (getKey env_k3 init_state) = Inr ''K1''
   \<and> trace (snd (getKeys [env_nofile, env_nofile] (snd (getKey env_k3 init_state)))) = [ReadKeylist]
   \<and> fst (getKeys [env_nofile, env_nofile] (snd (getKey env_k3 init_state))) = Inr [''K2'', ''K3'']
   \<and> getKeys [env_nofile, env_nofile] (snd (getKey env_k3 init_state))
       = getKeys [env_k3, env_k3] (snd (getKey env_k3 init_state))"
proof -
  have g: "getKey env_k3 init_state =
      (Inr ''K1'', init_state\<lparr>trace := [ReadKeylist], apiKeys := [''K1'', ''K2'', ''K3''],
                              currentKeyIndex := 1\<rparr>)"
    by (simp add: getKey_first_call init_state_def env_k3_def parse_keyfile_k3 next_key_def)
  have 1: "\<exists>err. getKey env_nofile init_state = (Inl err, init_state\<lparr>trace := [ReadKeylist]\<rparr>)"
    using getKey_loads_once[of init_state env_nofile
        "''ENOENT: no such file or directory, open .keylist''"]
    by (simp add: init_state_def env_nofile_def)
  have e0: "apiKeys init_state = []" by (simp add: init_state_def)
  have nb: "split_nl keyfile_nbsp = [[CHR 0xC2, CHR 0xA0]]" by (simp add: keyfile_nbsp_def)
  have "[CHR 0xC2, CHR 0xA0] \<in> set js_white_space" by (simp add: js_white_space_def)
  then have "set [[CHR 0xC2, CHR 0xA0]] \<subseteq> set js_white_space
             \<and> [CHR 0xC2, CHR 0xA0] = concat [[CHR 0xC2, CHR 0xA0]]" by simp
  then have "\<exists>ps. set ps \<subseteq> set js_white_space \<and> [CHR 0xC2, CHR 0xA0] = concat ps" by blast
  then have blank: "\<forall>l\<in>set (split_nl keyfile_nbsp).
       \<exists>ps. set ps \<subseteq> set js_white_space \<and> l = concat ps" by (simp add: nb)
  have kn: "keylist env_nbsp = Inr keyfile_nbsp" by (simp add: env_nbsp_def)
  have 5: "fst (getKey env_nbsp init_state) = Inl ''.keylist file is empty''"
    using getKey_loads_once[of init_state env_nbsp _ keyfile_nbsp] e0 kn blank by blast
  have kp: "keylist env_padded = Inr keyfile_padded" by (simp add: env_padded_def)
  have "apiKeys (snd (getKey env_padded init_state))
        = filter (\<lambda>l. l \<noteq> []) (map trim (split_nl keyfile_padded))"
    using getKey_loads_once[of init_state env_padded _ keyfile_padded] e0 kp by blast
  then have 6: "apiKeys (snd (getKey env_padded init_state)) = [''K1'', ''K2'']"
    using parse_keyfile_padded by (simp add: parse_keylist_def)
  have 7: "fst (getKey env_padded init_state) = Inr ''K1''"
    by (simp add: getKey_first_call init_state_def env_padded_def parse_keyfile_padded next_key_def)
  let ?s' = "snd (getKey env_k3 init_state)"
  have gk: "getKey env_k3 init_state = (Inr ''K1'', ?s')" using g by simp
  have t: "trace ?s' = [ReadKeylist]" using g by simp
  note later = getKey_loads_once[THEN conjunct2, THEN conjunct2, rule_format, OF gk,
      of "[env_nofile, env_nofile]"]
  have 3: "trace (snd (getKeys [env_nofile, env_nofile] ?s')) = [ReadKeylist]"
    using later t by simp
  have "length [env_k3, env_k3] = length [env_nofile, env_nofile]" by simp
  with later have "getKeys [env_k3, env_k3] ?s' = getKeys [env_nofile, env_nofile] ?s'"
    by blast
  then have 4: "getKeys [env_nofile, env_nofile] ?s' = getKeys [env_k3, env_k3] ?s'"
    by (rule sym)
  have 8: "fst (getKeys [env_nofile, env_nofile] ?s') = Inr [''K2'', ''K3'']"
    by (simp add: g getKey_loaded next_key_def)
  have 2: "apiKeys ?s' = [''K1'', ''K2'', ''K3'']" "fst (getKey env_k3 init_state) = Inr ''K1''"
    using g by simp_all
  show ?thesis using 1 2 3 4 5 6 7 8 by blast
qed

section \<open>Date conversion: properties\<close>

lemma is_digit_not_dash: "is_digit c \<Longrightarrow> c \<noteq> CHR ''-''"
  by (auto simp: is_digit_def)

lemma eight_chars:
  assumes "length d = 8"
  obtains c1 c2 c3 c4 c5 c6 c7 c8 where "d = [c1, c2, c3, c4, c5, c6, c7, c8 :: char]"
  using assms by (auto simp: numeral_eq_Suc length_Suc_conv)

lemma formatStockDate_valid:
  assumes "is_yyyymmdd d"
  shows "formatStockDate d = Inr (take 4 d @ ''-'' @ take 2 (drop 4 d) @ ''-'' @ drop 6 d)"
proof -
  from assms have "length d = 8" by (simp add: is_yyyymmdd_def)
  then show ?thesis using assms by (simp add: formatStockDate_def slice_def)
qed

lemma undash:
  assumes "is_yyyymmdd d"
  shows "filter (\<lambda>c. c \<noteq> CHR ''-'') (take 4 d @ ''-'' @ take 2 (drop 4 d) @ ''-'' @ drop 6 d) = d"
proof -
  from assms have "length d = 8" by (simp add: is_yyyymmdd_def)
  then obtain c1 c2 c3 c4 c5 c6 c7 c8 where d: "d = [c1, c2, c3, c4, c5, c6, c7, c8]"
    by (rule eight_chars)
  have "\<forall>c\<in>set d. c \<noteq> CHR ''-''"
    using assms by (auto simp: is_yyyymmdd_def list_all_iff dest: is_digit_not_dash)
  then show ?thesis unfolding d by simp
qed


lemma formatStockDate_shape:
  assumes "is_yyyymmdd d"
  shows "length (take 4 d @ ''-'' @ take 2 (drop 4 d) @ ''-'' @ drop 6 d) = 10"
    and "(take 4 d @ ''-'' @ take 2 (drop 4 d) @ ''-'' @ drop 6 d) ! 4 = CHR ''-''"
    and "(take 4 d @ ''-'' @ take 2 (drop 4 d) @ ''-'' @ drop 6 d) ! 7 = CHR ''-''"
proof -
  from assms have "length d = 8" by (simp add: is_yyyymmdd_def)
  then obtain c1 c2 c3 c4 c5 c6 c7 c8 where d: "d = [c1, c2, c3, c4, c5, c6, c7, c8]"
    by (rule eight_chars)
  show "length (take 4 d @ ''-'' @ take 2 (drop 4 d) @ ''-'' @ drop 6 d) = 10"
    and "(take 4 d @ ''-'' @ take 2 (drop 4 d) @ ''-'' @ drop 6 d) ! 4 = CHR ''-''"
    and "(take 4 d @ ''-'' @ take 2 (drop 4 d) @ ''-'' @ drop 6 d) ! 7 = CHR ''-''"
    unfolding d by simp_all
qed

lemma prices_on_date_invalid:
  assumes "\<not> is_yyyymmdd d"
  shows "prices_on_date e sy d s = (Inl (invalid_date d), s)"
  using assms by (simp add: prices_on_date_def formatStockDate_def)

text \<open>
  Claim C8, as amended. On the strings of exactly eight digits \<open>formatStockDate\<close>
  succeeds, its output has ten characters with dashes at positions 4 and 7, deleting the
  dashes gives back the input, and distinct inputs give distinct outputs. Every other
  string (wrong length, or some character not a digit) is refused with
  \<open>Invalid date format\<close>; in \<open>processGetStockPrices\<close> a non-empty such date makes
  the call fail with that error and leaves the whole state, trace included, as it was:
  no store read, no key read, no request. The empty string is not refused there: it is
  handled as if no date had been given.
\<close>

theorem formatStockDate_bijection:
  "(is_yyyymmdd d \<longrightarrow>
      (\<exists>f. formatStockDate d = Inr f \<and> filter (\<lambda>c. c \<noteq> CHR ''-'') f = d
           \<and> length f = 10 \<and> f ! 4 = CHR ''-'' \<and> f ! 7 = CHR ''-''))
   \<and> (is_yyyymmdd d \<and> is_yyyymmdd d' \<and> formatStockDate d = formatStockDate d' \<longrightarrow> d = d')
   \<and> (is_yyyymmdd d \<longleftrightarrow> length d = 8 \<and> (\<forall>c\<in>set d. is_digit c))
   \<and> (\<not> is_yyyymmdd d \<longrightarrow> formatStockDate d = Inl (invalid_date d))
   \<and> (\<not> is_yyyymmdd d \<and> d \<noteq> [] \<longrightarrow>
        processGetStockPrices e sy (Some d) s = (Inl (invalid_date d), s))
   \<and> processGetStockPrices e sy (Some []) s = processGetStockPrices e sy None s"
proof (intro conjI impI)
  assume v: "is_yyyymmdd d"
  show "\<exists>f. formatStockDate d = Inr f \<and> filter (\<lambda>c. c \<noteq> CHR ''-'') f = d
           \<and> length f = 10 \<and> f ! 4 = CHR ''-'' \<and> f ! 7 = CHR ''-''"
    using formatStockDate_valid[OF v] undash[OF v] formatStockDate_shape[OF v] by blast
next
  assume a: "is_yyyymmdd d \<and> is_yyyymmdd d' \<and> formatStockDate d = formatStockDate d'"
  then have v: "is_yyyymmdd d" "is_yyyymmdd d'" and eq: "formatStockDate d = formatStockDate d'"
    by simp_all
  have "take 4 d @ ''-'' @ take 2 (drop 4 d) @ ''-'' @ drop 6 d
           = take 4 d' @ ''-'' @ take 2 (drop 4 d') @ ''-'' @ drop 6 d'"
    using eq unfolding formatStockDate_valid[OF v(1)] formatStockDate_valid[OF v(2)] by simp
  then have "filter (\<lambda>c. c \<noteq> CHR ''-'') (take 4 d @ ''-'' @ take 2 (drop 4 d) @ ''-'' @ drop 6 d)
           = filter (\<lambda>c. c \<noteq> CHR ''-'') (take 4 d' @ ''-'' @ take 2 (drop 4 d') @ ''-'' @ drop 6 d')"
    by (rule arg_cong)
  then show "d = d'" using a undash[of d] undash[of d'] by simp
next
  show "is_yyyymmdd d \<longleftrightarrow> length d = 8 \<and> (\<forall>c\<in>set d. is_digit c)"
    by (simp add: is_yyyymmdd_def list_all_iff)
next
  assume "\<not> is_yyyymmdd d"
  then show "formatStockDate d = Inl (invalid_date d)" by (simp add: formatStockDate_def)
next
  assume "\<not> is_yyyymmdd d \<and> d \<noteq> []"
  then show "processGetStockPrices e sy (Some d) s = (Inl (invalid_date d), s)"
    by (simp add: processGetStockPrices_def prices_on_date_invalid)
next
  show "processGetStockPrices e sy (Some []) s = processGetStockPrices e sy None s"
    by (simp add: processGetStockPrices_def)
qed

text \<open>Instances: \<open>20251223\<close> becomes \<open>2025-12-23\<close> and converts back; the
  malformed date \<open>2025-12-23\<close> is refused without touching the state.\<close>

theorem formatStockDate_bijection_witness:
  "formatStockDate ''20251223'' = Inr ''2025-12-23''
   \<and> filter (\<lambda>c. c \<noteq> CHR ''-'') ''2025-12-23'' = ''20251223''
   \<and> processGetStockPrices env_k3 ''IBM'' (Some ''2025-12-23'') ibm_cached
       = (Inl ''Invalid date format: 2025-12-23. Expected YYYYMMDD'', ibm_cached)"
proof -
  have v: "is_yyyymmdd ''20251223''" by (simp add: is_yyyymmdd_def is_digit_def)
  have n: "\<not> is_yyyymmdd ''2025-12-23'' \<and> ''2025-12-23'' \<noteq> []" by (simp add: is_yyyymmdd_def)
  have f: "formatStockDate ''20251223'' = Inr ''2025-12-23''"
    using v by (simp add: formatStockDate_def slice_def)
  from formatStockDate_bijection[of "''20251223''"] v f
  have 1: "filter (\<lambda>c. c \<noteq> CHR ''-'') ''2025-12-23'' = ''20251223''" by simp
  from formatStockDate_bijection[of "''2025-12-23''" _ env_k3 "''IBM''" ibm_cached] n
  have 2: "processGetStockPrices env_k3 ''IBM'' (Some ''2025-12-23'') ibm_cached
       = (Inl (invalid_date ''2025-12-23''), ibm_cached)" by blast
  show ?thesis using f 1 2 by (simp add: invalid_date_def)
qed

lemma show_nat_1: "show_nat (Suc 0) = ''1''"
  by code_simp

lemma findStock_latest_ibm:
  "findStockDocuments ''stock-IBM'' None True (Some 100) ibm_cached
     = (Inr [ibm_doc], ibm_cached\<lparr>trace := [FindStock ''stock-IBM'' None True (Some 100)]\<rparr>)"
  by (simp add: findStockDocuments_def ibm_cached_def init_state_def sort_date_desc_def)

text \<open>
  Claim C8 as stated fails for the empty string: it has the wrong length, yet with it
  as the date the tool reads the store and answers from it instead of failing.
\<close>

theorem empty_date_not_rejected:
  "\<not> is_yyyymmdd [] \<and> length ([] :: string) \<noteq> 8
   \<and> fst (processGetStockPrices env_k3 ''IBM'' (Some []) ibm_cached)
        = Inr \<lparr>message = ''Found 1 stock price records for IBM'',
               data = DataDocs [ibm_doc], error = None\<rparr>
   \<and> trace (snd (processGetStockPrices env_k3 ''IBM'' (Some []) ibm_cached))
        = [FindStock ''stock-IBM'' None True (Some 100)]"
  by (simp add: is_yyyymmdd_def processGetStockPrices_def latest_prices_def collectionName_def
      findStock_latest_ibm show_nat_1)

section \<open>News queries: properties\<close>

lemma less_append_nonempty: "ys \<noteq> [] \<Longrightarrow> (xs :: string) < xs @ ys"
  by (induction xs) (auto simp: neq_Nil_conv)

lemma append_le_cancel: "(xs :: string) @ ys \<le> xs @ zs \<longleftrightarrow> ys \<le> zs"
  by (induction xs) auto

lemma less_same_length_append:
  assumes "length xs = length ys" and "(xs :: string) < ys"
  shows "xs @ us < ys @ vs"
  using assms by (induction xs ys rule: list_induct2) auto

lemma T0000_le_T2359: "''T0000'' @ ss \<le> ''T2359''"
  by (simp add: less_char_def)

lemma start_minute_in_range:
  assumes "length frm = length to" and "frm \<le> to"
  shows "frm @ ''T0000'' \<le> frm @ ''T0000'' @ ss" and "frm @ ''T0000'' @ ss \<le> to @ ''T2359''"
proof -
  show "frm @ ''T0000'' \<le> frm @ ''T0000'' @ ss"
    using less_append_nonempty[of ss "frm @ ''T0000''"]
    by (cases "ss = []") (simp_all add: less_imp_le)
  show "frm @ ''T0000'' @ ss \<le> to @ ''T2359''"
  proof (cases "frm = to")
    case True
    then show ?thesis using T0000_le_T2359[of ss] by (simp only: append_le_cancel)
  next
    case False
    with assms(2) have "frm < to" by simp
    from less_same_length_append[OF assms(1) this] show ?thesis by (simp add: less_imp_le)
  qed
qed

lemma end_minute_out_of_range:
  assumes "ss \<noteq> []"
  shows "\<not> (to @ ''T2359'' @ ss \<le> to @ ''T2359'')"
proof -
  have "to @ ''T2359'' < (to @ ''T2359'') @ ss" using assms by (rule less_append_nonempty)
  then show ?thesis by (simp add: not_le)
qed

lemma processGetNews_ok:
  assumes "is_yyyymmdd frm" "is_yyyymmdd to" "globalClient s"
  shows "\<exists>m. processGetNews e frm to kw s =
     (Inr \<lparr>n_message = m,
            n_count = length (filter (news_filter e (frm @ ''T0000'') (to @ ''T2359'') (keyword_given kw)) (news s)),
            n_data = filter (news_filter e (frm @ ''T0000'') (to @ ''T2359'') (keyword_given kw)) (news s)\<rparr>,
      s\<lparr>trace := trace s @ [FindNews (frm @ ''T0000'') (to @ ''T2359'') (keyword_given kw)]\<rparr>)"
  using assms
  by (simp add: processGetNews_def formatNewsTime_def findNewsDocuments_def Let_def)


lemma processGetNews_state:
  "snd (processGetNews e frm to kw s) = s
   \<or> snd (processGetNews e frm to kw s)
       = s\<lparr>trace := trace s @ [FindNews (frm @ ''T0000'') (to @ ''T2359'') (keyword_given kw)]\<rparr>"
  by (simp add: processGetNews_def formatNewsTime_def findNewsDocuments_def Let_def)

lemma news_filter_keyword:
  "k \<noteq> [] \<Longrightarrow> news_filter e lo hi (keyword_given (Some k)) =
     (\<lambda>a. lo \<le> time_published a \<and> time_published a \<le> hi
          \<and> (regex e k ''i'' (title a) \<or> regex e k ''i'' (summary a)))"
  by (rule ext) (simp add: news_filter_def keyword_given_def)

lemma news_filter_no_keyword:
  "kw = None \<or> kw = Some [] \<Longrightarrow> news_filter e lo hi (keyword_given kw) =
     (\<lambda>a. lo \<le> time_published a \<and> time_published a \<le> hi)"
  by (rule ext) (auto simp: news_filter_def keyword_given_def)

text \<open>
  Claim C7. \<open>processGetNews\<close> only reads: whatever the arguments, the state after
  the call is the state before it, or that state with one news read appended to the
  trace; no key is drawn, no request is made and nothing is stored. With two valid
  dates and a connected store the call succeeds (also when nothing matches), the count
  is the number of articles returned, and the articles returned are: with a non-empty
  keyword, exactly the stored articles whose \<open>time_published\<close> lies between
  \<open>from\<close>T0000 and \<open>to\<close>T2359 and whose title or summary matches the keyword
  under the store's matcher with option \<open>i\<close>; with no keyword (or an empty one),
  exactly the stored articles in that range.
\<close>

theorem processGetNews_filter:
  "(snd (processGetNews e frm to kw s) = s
    \<or> snd (processGetNews e frm to kw s)
        = s\<lparr>trace := trace s @ [FindNews (frm @ ''T0000'') (to @ ''T2359'') (keyword_given kw)]\<rparr>)
   \<and> (is_yyyymmdd frm \<and> is_yyyymmdd to \<and> globalClient s \<longrightarrow>
        (\<exists>r. fst (processGetNews e frm to kw s) = Inr r
           \<and> n_count r = length (n_data r)
           \<and> (\<forall>k. kw = Some k \<and> k \<noteq> [] \<longrightarrow>
                 n_data r = filter (\<lambda>a. frm @ ''T0000'' \<le> time_published a
                                        \<and> time_published a \<le> to @ ''T2359''
                                        \<and> (regex e k ''i'' (title a) \<or> regex e k ''i'' (summary a)))
                                   (news s))
           \<and> (kw = None \<or> kw = Some [] \<longrightarrow>
                 n_data r = filter (\<lambda>a. frm @ ''T0000'' \<le> time_published a
                                        \<and> time_published a \<le> to @ ''T2359'')
                                   (news s))))"
proof (intro conjI impI)
  show "snd (processGetNews e frm to kw s) = s
    \<or> snd (processGetNews e frm to kw s)
        = s\<lparr>trace := trace s @ [FindNews (frm @ ''T0000'') (to @ ''T2359'') (keyword_given kw)]\<rparr>"
    by (rule processGetNews_state)
next
  assume a: "is_yyyymmdd frm \<and> is_yyyymmdd to \<and> globalClient s"
  then obtain m where r: "processGetNews e frm to kw s =
     (Inr \<lparr>n_message = m,
            n_count = length (filter (news_filter e (frm @ ''T0000'') (to @ ''T2359'') (keyword_given kw)) (news s)),
            n_data = filter (news_filter e (frm @ ''T0000'') (to @ ''T2359'') (keyword_given kw)) (news s)\<rparr>,
      s\<lparr>trace := trace s @ [FindNews (frm @ ''T0000'') (to @ ''T2359'') (keyword_given kw)]\<rparr>)"
    using processGetNews_ok[of frm to s e kw] by blast
  show "\<exists>r. fst (processGetNews e frm to kw s) = Inr r
           \<and> n_count r = length (n_data r)
           \<and> (\<forall>k. kw = Some k \<and> k \<noteq> [] \<longrightarrow>
                 n_data r = filter (\<lambda>a. frm @ ''T0000'' \<le> time_published a
                                        \<and> time_published a \<le> to @ ''T2359''
                                        \<and> (regex e k ''i'' (title a) \<or> regex e k ''i'' (summary a)))
                                   (news s))
           \<and> (kw = None \<or> kw = Some [] \<longrightarrow>
                 n_data r = filter (\<lambda>a. frm @ ''T0000'' \<le> time_published a
                                        \<and> time_published a \<le> to @ ''T2359'')
                                   (news s))"
    unfolding r
    by (intro exI[of _ "\<lparr>n_message = m,
            n_count = length (filter (news_filter e (frm @ ''T0000'') (to @ ''T2359'') (keyword_given kw)) (news s)),
            n_data = filter (news_filter e (frm @ ''T0000'') (to @ ''T2359'') (keyword_given kw)) (news s)\<rparr>"])
       (auto simp: news_filter_keyword news_filter_no_keyword)
qed

lemma dates_valid:
  "is_yyyymmdd ''20251221''" "is_yyyymmdd ''20251222''" "is_yyyymmdd ''20251223''"
  by (simp_all add: is_yyyymmdd_def is_digit_def)

lemma news_store_simps:
  "globalClient news_store" "news news_store = [news_a, news_b, news_c]"
  by (simp_all add: news_store_def init_state_def)

lemma news_fields:
  "time_published news_a = ''20251221T000015''" "title news_a = ''Trading volumes rise''"
  "summary news_a = ''Markets opened higher''"
  "time_published news_b = ''20251222T235930''" "title news_b = ''Late edition''"
  "summary news_b = ''Evening trading wrap''"
  "time_published news_c = ''20251223T101500''" "title news_c = ''Next day''"
  "summary news_c = ''Nothing about markets''"
  by (simp_all add: news_a_def news_b_def news_c_def article_def)

text \<open>Instances of claim C7: keyword \<open>trading\<close> keeps the article matching by title
  and the one matching by summary and drops the third; without keyword all three come
  back.\<close>

theorem processGetNews_filter_witness:
  "(\<exists>r. fst (processGetNews env_news ''20251221'' ''20251223'' (Some ''trading'') news_store) = Inr r
        \<and> n_data r = [news_a, news_b] \<and> n_count r = 2)
   \<and> (\<exists>r. fst (processGetNews env_news ''20251221'' ''20251223'' None news_store) = Inr r
        \<and> n_data r = [news_a, news_b, news_c])"
proof -
  have rx: "regex env_news = (\<lambda>p opts t. p = ''trading'' \<and> opts = ''i''
                          \<and> (t = ''Trading volumes rise'' \<or> t = ''Evening trading wrap''))"
    by (simp add: env_news_def)
  from processGetNews_filter[of env_news "''20251221''" "''20251223''" "Some ''trading''" news_store]
  have "\<exists>r. fst (processGetNews env_news ''20251221'' ''20251223'' (Some ''trading'') news_store) = Inr r
        \<and> n_count r = length (n_data r) \<and> n_data r = [news_a, news_b]"
    by (simp add: dates_valid news_store_simps news_fields rx less_char_def less_eq_char_def)
  then have 1: "\<exists>r. fst (processGetNews env_news ''20251221'' ''20251223'' (Some ''trading'') news_store) = Inr r
        \<and> n_data r = [news_a, news_b] \<and> n_count r = 2"
    by auto
  from processGetNews_filter[of env_news "''20251221''" "''20251223''" None news_store]
  have "\<exists>r. fst (processGetNews env_news ''20251221'' ''20251223'' None news_store) = Inr r
        \<and> n_count r = length (n_data r) \<and> n_data r = [news_a, news_b, news_c]"
    by (simp add: dates_valid news_store_simps news_fields less_char_def less_eq_char_def)
  then have 2: "\<exists>r. fst (processGetNews env_news ''20251221'' ''20251223'' None news_store) = Inr r
        \<and> n_data r = [news_a, news_b, news_c]"
    by auto
  show ?thesis using 1 2 by blast
qed

text \<open>
  Claim C10. For valid dates and a connected store the call succeeds; the upper bound
  of the query is the 13-character string \<open>to\<close>T2359; an article stamped
  \<open>to\<close>T2359 followed by any further characters (the seconds) has that bound as a
  strict prefix, is greater than it, and is not returned; an article stored with stamp
  \<open>from\<close>T0000 followed by seconds is returned whenever \<open>from \<le> to\<close> and the
  keyword, if any, matches it.
\<close>

theorem processGetNews_end_minute:
  assumes "is_yyyymmdd frm" and "is_yyyymmdd to" and "globalClient s"
  shows "\<exists>r s'. processGetNews e frm to kw s = (Inr r, s')
     \<and> formatNewsTime to True = Inr (to @ ''T2359'') \<and> length (to @ ''T2359'') = 13
     \<and> (\<forall>a ss. time_published a = to @ ''T2359'' @ ss \<and> ss \<noteq> [] \<longrightarrow>
            strict_prefix (to @ ''T2359'') (time_published a)
            \<and> to @ ''T2359'' < time_published a
            \<and> a \<notin> set (n_data r))
     \<and> (\<forall>a ss. a \<in> set (news s) \<and> time_published a = frm @ ''T0000'' @ ss \<and> frm \<le> to
            \<and> (case keyword_given kw of None \<Rightarrow> True
                | Some k \<Rightarrow> regex e k ''i'' (title a) \<or> regex e k ''i'' (summary a)) \<longrightarrow>
            a \<in> set (n_data r))"
proof -
  let ?flt = "news_filter e (frm @ ''T0000'') (to @ ''T2359'') (keyword_given kw)"
  obtain m where r: "processGetNews e frm to kw s =
     (Inr \<lparr>n_message = m, n_count = length (filter ?flt (news s)), n_data = filter ?flt (news s)\<rparr>,
      s\<lparr>trace := trace s @ [FindNews (frm @ ''T0000'') (to @ ''T2359'') (keyword_given kw)]\<rparr>)"
    using processGetNews_ok[OF assms, of e kw] by blast
  have len: "length frm = length to" "length to = 8" using assms by (simp_all add: is_yyyymmdd_def)
  have f: "formatNewsTime to True = Inr (to @ ''T2359'')" "length (to @ ''T2359'') = 13"
    using assms(2) len by (simp_all add: formatNewsTime_def)
  have ex: "strict_prefix (to @ ''T2359'') (time_published a) \<and> to @ ''T2359'' < time_published a
            \<and> a \<notin> set (filter ?flt (news s))"
    if "time_published a = to @ ''T2359'' @ ss \<and> ss \<noteq> []" for a ss
  proof -
    from that have t: "time_published a = (to @ ''T2359'') @ ss" and ss: "ss \<noteq> []" by simp_all
    have "strict_prefix (to @ ''T2359'') ((to @ ''T2359'') @ ss)"
      using ss by (simp add: strict_prefix_def)
    moreover have "to @ ''T2359'' < (to @ ''T2359'') @ ss" using ss by (rule less_append_nonempty)
    moreover have "\<not> ?flt a"
      using end_minute_out_of_range[OF ss, of to] t by (simp add: news_filter_def)
    ultimately show ?thesis unfolding t by simp
  qed
  have inc: "a \<in> set (filter ?flt (news s))"
    if "a \<in> set (news s) \<and> time_published a = frm @ ''T0000'' @ ss \<and> frm \<le> to
            \<and> (case keyword_given kw of None \<Rightarrow> True
                | Some k \<Rightarrow> regex e k ''i'' (title a) \<or> regex e k ''i'' (summary a))" for a ss
    using that start_minute_in_range[OF len(1), of ss] by (simp add: news_filter_def)
  let ?R = "\<lparr>n_message = m, n_count = length (filter ?flt (news s)), n_data = filter ?flt (news s)\<rparr>"
  have nd: "n_data ?R = filter ?flt (news s)" by simp
  have 1: "\<forall>a ss. time_published a = to @ ''T2359'' @ ss \<and> ss \<noteq> [] \<longrightarrow>
            strict_prefix (to @ ''T2359'') (time_published a)
            \<and> to @ ''T2359'' < time_published a
            \<and> a \<notin> set (n_data ?R)"
    unfolding nd using ex by blast
  have 2: "\<forall>a ss. a \<in> set (news s) \<and> time_published a = frm @ ''T0000'' @ ss \<and> frm \<le> to
            \<and> (case keyword_given kw of None \<Rightarrow> True
                | Some k \<Rightarrow> regex e k ''i'' (title a) \<or> regex e k ''i'' (summary a)) \<longrightarrow>
            a \<in> set (n_data ?R)"
    unfolding nd using inc by blast
  show ?thesis using r f 1 2 by blast
qed

text \<open>Instance of claim C10: asking for 21 to 22 December returns the article of
  21 December 00:00:15 and not the stored one of 22 December 23:59:30.\<close>

theorem processGetNews_end_minute_witness:
  "(\<exists>r. fst (processGetNews env_news ''20251221'' ''20251222'' None news_store) = Inr r
       \<and> news_b \<notin> set (n_data r) \<and> news_a \<in> set (n_data r))
   \<and> time_published news_b = ''20251222'' @ ''T2359'' @ ''30''
   \<and> news_b \<in> set (news news_store)"
proof -
  from processGetNews_end_minute[OF dates_valid(1) dates_valid(2) news_store_simps(1), of env_news None]
  obtain r s' where r: "processGetNews env_news ''20251221'' ''20251222'' None news_store = (Inr r, s')"
    and ex: "\<forall>a ss. time_published a = ''20251222'' @ ''T2359'' @ ss \<and> ss \<noteq> [] \<longrightarrow>
            a \<notin> set (n_data r)"
    and inc: "\<forall>a ss. a \<in> set (news news_store) \<and> time_published a = ''20251221'' @ ''T0000'' @ ss
            \<and> ''20251221'' \<le> ''20251222''
            \<and> (case keyword_given None of None \<Rightarrow> True
                | Some k \<Rightarrow> regex env_news k ''i'' (title a) \<or> regex env_news k ''i'' (summary a)) \<longrightarrow>
            a \<in> set (n_data r)"
    by blast
  have b: "time_published news_b = ''20251222'' @ ''T2359'' @ ''30''" by (simp add: news_fields)
  have "news_b \<notin> set (n_data r)" using ex[rule_format, of news_b "''30''"] b by simp
  moreover have "news_a \<in> set (n_data r)"
    using inc[rule_format, of news_a "''15''"]
    by (simp add: news_store_simps news_fields keyword_given_def less_char_def)
  ultimately show ?thesis using r b by (simp add: news_store_simps)
qed

section \<open>Fetching and storing prices: properties\<close>

lemma getKey_frame:
  "globalClient (snd (getKey e s)) = globalClient s"
  "stocks (snd (getKey e s)) = stocks s"
  "news (snd (getKey e s)) = news s"
  by (simp_all add: getKey_def next_key_def Let_def split: sum.splits)

lemma getKey_trace:
  "trace (snd (getKey e s)) = trace s \<or> trace (snd (getKey e s)) = trace s @ [ReadKeylist]"
  by (simp add: getKey_def next_key_def Let_def split: sum.splits)

lemma upsert_entries_connected:
  assumes "globalClient s \<or> ts = []"
  shows "upsert_entries sy ts cnt s =
    (Inr (cnt + length ts),
     s\<lparr>stocks := (stocks s)(collectionName sy := store_entries sy ts (stocks s (collectionName sy))),
       trace := trace s @ map (\<lambda>(d, vals). Upsert (collectionName sy) d) ts\<rparr>)"
  using assms
proof (induction ts arbitrary: cnt s)
  case Nil
  then show ?case by (simp add: store_entries_def)
next
  case (Cons en ts)
  obtain d vals where en: "en = (d, vals)" by (cases en)
  have c: "globalClient s" using Cons.prems by simp
  let ?s1 = "s\<lparr>stocks := (stocks s)(collectionName sy :=
                  replaceOne (\<lambda>x. date x = d) (stockDoc sy d vals) (stocks s (collectionName sy))),
               trace := trace s @ [Upsert (collectionName sy) d]\<rparr>"
  have u: "upsertStockDocument (collectionName sy) d (stockDoc sy d vals) s = (Inr True, ?s1)"
    using c by (simp add: upsertStockDocument_def)
  have g: "globalClient ?s1 \<or> ts = []" using c by simp
  show ?case
    unfolding en
    apply (simp add: u Cons.IH[OF g] store_entries_def)
    apply (rule state.equality; simp add: fun_eq_iff)
    done
qed

lemma upsert_entries_disconnected:
  assumes "\<not> globalClient s" "ts \<noteq> []"
  shows "upsert_entries sy ts cnt s = (Inl not_connected, s)"
  using assms by (cases ts) (auto simp: upsertStockDocument_def)

lemma upsert_entries_Inr:
  assumes "upsert_entries sy ts cnt s = (Inr n, s')"
  shows "n = cnt + length ts \<and> (globalClient s \<or> ts = [])"
proof (cases "globalClient s")
  case True
  then show ?thesis using assms by (simp add: upsert_entries_connected)
next
  case False
  then show ?thesis using assms upsert_entries_disconnected[OF False, of ts sy cnt]
    by (cases "ts = []") auto
qed

lemma fetch_json_ok:
  assumes "net e u = HttpResponse st stx (JsonBody d)" "response_ok st" "error_field d = None"
  shows "fetch_json e what u s = (Inr d, s\<lparr>trace := trace s @ [HttpGet u]\<rparr>)"
  using assms by (simp add: fetch_json_def)

lemma fetch_json_state: "snd (fetch_json e what u s) = s\<lparr>trace := trace s @ [HttpGet u]\<rparr>"
  by (simp add: fetch_json_def Let_def split: http_result.splits body.splits option.splits)

lemma fetch_json_Inr:
  assumes "fetch_json e what u s = (Inr d, s')"
  shows "\<exists>st stx. net e u = HttpResponse st stx (JsonBody d) \<and> response_ok st \<and> error_field d = None"
  using assms
  by (auto simp: fetch_json_def Let_def split: http_result.splits body.splits option.splits if_splits)

lemma pullStock_ok:
  assumes k: "getKey e (s\<lparr>trace := trace s @ [CallPullStock sy]\<rparr>) = (Inr k, s1)"
    and r: "net e (stock_url sy k) = HttpResponse st stx (JsonBody d)" "response_ok st"
           "error_field d = None" "p_Time_Series_Daily d = Some ts"
    and c: "globalClient s \<or> ts = []"
  shows "pullStock e sy s =
    (Inr (length ts),
     s1\<lparr>stocks := (stocks s)(collectionName sy := store_entries sy ts (stocks s (collectionName sy))),
        trace := trace s1 @ [HttpGet (stock_url sy k)]
                   @ map (\<lambda>(d, vals). Upsert (collectionName sy) d) ts @ [Wait 5000]\<rparr>)"
proof -
  have f: "globalClient s1 = globalClient s" "stocks s1 = stocks s"
    using getKey_frame[of e "s\<lparr>trace := trace s @ [CallPullStock sy]\<rparr>"] k by simp_all
  let ?s2 = "s1\<lparr>trace := trace s1 @ [HttpGet (stock_url sy k)]\<rparr>"
  have fj: "fetch_json e ''stock'' (stock_url sy k) s1 = (Inr d, ?s2)"
    using r by (simp add: fetch_json_ok)
  have g2: "globalClient ?s2 \<or> ts = []" using f c by simp
  show ?thesis
    by (simp add: pullStock_def k fj r upsert_entries_connected[OF g2] waitAfterApiCall_def f)
qed

lemma pullStock_Inr:
  assumes "pullStock e sy s = (Inr n, s')"
  shows "\<exists>k s1 st stx d ts.
     getKey e (s\<lparr>trace := trace s @ [CallPullStock sy]\<rparr>) = (Inr k, s1)
     \<and> net e (stock_url sy k) = HttpResponse st stx (JsonBody d) \<and> response_ok st
     \<and> error_field d = None \<and> p_Time_Series_Daily d = Some ts \<and> n = length ts
     \<and> (globalClient s \<or> ts = [])"
proof -
  obtain rk s1 where gk: "getKey e (s\<lparr>trace := trace s @ [CallPullStock sy]\<rparr>) = (rk, s1)"
    by (cases "getKey e (s\<lparr>trace := trace s @ [CallPullStock sy]\<rparr>)")
  then obtain k where rk: "rk = Inr k"
    using assms by (cases rk) (auto simp: pullStock_def)
  obtain rf s2 where fj: "fetch_json e ''stock'' (stock_url sy k) s1 = (rf, s2)"
    by (cases "fetch_json e ''stock'' (stock_url sy k) s1")
  then obtain d where rf: "rf = Inr d"
    using assms gk rk by (cases rf) (auto simp: pullStock_def)
  obtain ts where ts: "p_Time_Series_Daily d = Some ts"
    using assms gk rk fj rf by (cases "p_Time_Series_Daily d") (auto simp: pullStock_def)
  obtain ru s3 where up: "upsert_entries sy ts 0 s2 = (ru, s3)"
    by (cases "upsert_entries sy ts 0 s2")
  then have ru: "ru = Inr n"
    using assms gk rk fj rf ts by (cases ru) (auto simp: pullStock_def)
  have s2: "s2 = s1\<lparr>trace := trace s1 @ [HttpGet (stock_url sy k)]\<rparr>"
    using fetch_json_state[of e "''stock''" "stock_url sy k" s1] fj by simp
  have g: "globalClient s2 = globalClient s"
    using getKey_frame(1)[of e "s\<lparr>trace := trace s @ [CallPullStock sy]\<rparr>"] gk s2 by simp
  from upsert_entries_Inr[OF up[unfolded ru]] g
  have "n = length ts \<and> (globalClient s \<or> ts = [])" by simp
  moreover from fetch_json_Inr[OF fj[unfolded rf]]
  obtain st stx where "net e (stock_url sy k) = HttpResponse st stx (JsonBody d)"
      "response_ok st" "error_field d = None" by blast
  ultimately show ?thesis using gk rk ts by blast
qed


lemma getKey_loaded_ok:
  assumes "apiKeys s \<noteq> []"
  shows "\<exists>k s'. getKey e s = (Inr k, s') \<and> apiKeys s' = apiKeys s \<and> trace s' = trace s
           \<and> globalClient s' = globalClient s \<and> stocks s' = stocks s \<and> news s' = news s"
  using assms by (simp add: getKey_def next_key_def)

lemma stockDoc_date [simp]: "date (stockDoc sy d vals) = d"
  by (simp add: stockDoc_def)

lemma store_entries_Nil [simp]: "store_entries sy [] c = c"
  by (simp add: store_entries_def)

lemma store_entries_Cons [simp]:
  "store_entries sy ((d, vals) # ts) c
     = store_entries sy ts (replaceOne (\<lambda>x. date x = d) (stockDoc sy d vals) c)"
  by (simp add: store_entries_def)

lemma replaceOne_dates:
  assumes "date doc = d"
  shows "map date (replaceOne (\<lambda>x. date x = d) doc c)
         = (if d \<in> date ` set c then map date c else map date c @ [d])"
  using assms by (induction c) auto

lemma replaceOne_distinct:
  assumes "date doc = d" "distinct (map date c)"
  shows "distinct (map date (replaceOne (\<lambda>x. date x = d) doc c))"
  using assms by (simp add: replaceOne_dates)

lemma replaceOne_count:
  assumes "date doc = d"
  shows "count_list (map date (replaceOne (\<lambda>x. date x = d) doc c)) d'
         = (if d' = d then max 1 (count_list (map date c) d) else count_list (map date c) d')"
proof (cases "d \<in> date ` set c")
  case True
  then have "count_list (map date c) d \<noteq> 0" by (simp add: count_list_0_iff)
  then have "max (Suc 0) (count_list (map date c) d) = count_list (map date c) d" by simp
  then show ?thesis using True assms by (simp add: replaceOne_dates)
next
  case False
  then have "count_list (map date c) d = 0" by (simp add: count_list_0_iff)
  then show ?thesis using False assms by (simp add: replaceOne_dates)
qed

lemma store_entries_distinct:
  "distinct (map date c) \<Longrightarrow> distinct (map date (store_entries sy ts c))"
proof (induction ts arbitrary: c)
  case Nil
  then show ?case by simp
next
  case (Cons en ts)
  obtain d vals where en: "en = (d, vals)" by (cases en)
  show ?case unfolding en
    using Cons.prems by (simp add: Cons.IH replaceOne_distinct)
qed

lemma store_entries_count:
  "count_list (map date (store_entries sy ts c)) d'
     = (if d' \<in> fst ` set ts then max 1 (count_list (map date c) d') else count_list (map date c) d')"
proof (induction ts arbitrary: c)
  case Nil
  then show ?case by simp
next
  case (Cons en ts)
  obtain d vals where en: "en = (d, vals)" by (cases en)
  show ?case unfolding en
    by (simp add: Cons.IH replaceOne_count)
qed

lemma find_replaceOne_same:
  assumes "date doc = d"
  shows "find (\<lambda>x. date x = d) (replaceOne (\<lambda>x. date x = d) doc c) = Some doc"
  using assms by (induction c) auto

lemma find_replaceOne_other:
  assumes "date doc' = d'" "d \<noteq> d'"
  shows "find (\<lambda>x. date x = d) (replaceOne (\<lambda>x. date x = d') doc' c) = find (\<lambda>x. date x = d) c"
  using assms by (induction c) auto

lemma replaceOne_found:
  assumes "find p c = Some doc"
  shows "replaceOne p doc c = c"
  using assms by (induction c) (auto split: if_splits)

lemma find_store_entries_other:
  assumes "d \<notin> fst ` set ts"
  shows "find (\<lambda>x. date x = d) (store_entries sy ts c) = find (\<lambda>x. date x = d) c"
  using assms
proof (induction ts arbitrary: c)
  case Nil
  then show ?case by simp
next
  case (Cons en ts)
  obtain d' vals where en: "en = (d', vals)" by (cases en)
  have "d \<noteq> d'" "d \<notin> fst ` set ts" using Cons.prems en by auto
  then show ?case unfolding en
    by (simp add: Cons.IH find_replaceOne_other)
qed

lemma store_entries_idem:
  assumes "distinct (map fst ts)"
  shows "store_entries sy ts (store_entries sy ts c) = store_entries sy ts c"
  using assms
proof (induction ts arbitrary: c)
  case Nil
  then show ?case by simp
next
  case (Cons en ts)
  obtain d vals where en: "en = (d, vals)" by (cases en)
  have d: "d \<notin> fst ` set ts" and dist: "distinct (map fst ts)"
    using Cons.prems en by auto
  let ?doc = "stockDoc sy d vals"
  let ?c1 = "replaceOne (\<lambda>x. date x = d) ?doc c"
  have "find (\<lambda>x. date x = d) (store_entries sy ts ?c1) = Some ?doc"
    by (simp add: find_store_entries_other[OF d] find_replaceOne_same)
  then have "replaceOne (\<lambda>x. date x = d) ?doc (store_entries sy ts ?c1) = store_entries sy ts ?c1"
    by (rule replaceOne_found)
  then show ?case unfolding en
    by (simp add: Cons.IH[OF dist])
qed

lemma find_Some_member: "find p c = Some x \<Longrightarrow> x \<in> set c"
  by (induction c) (auto split: if_splits)

lemma store_entries_member:
  assumes "distinct (map fst ts)" "(d, vals) \<in> set ts"
  shows "stockDoc sy d vals \<in> set (store_entries sy ts c)"
  using assms
proof (induction ts arbitrary: c)
  case Nil
  then show ?case by simp
next
  case (Cons en ts)
  obtain d' vals' where en: "en = (d', vals')" by (cases en)
  show ?case
  proof (cases "(d, vals) = en")
    case True
    then have e: "d' = d" "vals' = vals" using en by simp_all
    have "d \<notin> fst ` set ts" using Cons.prems(1) en e by auto
    then have "find (\<lambda>x. date x = d) (store_entries sy (en # ts) c) = Some (stockDoc sy d vals)"
      unfolding en e by (simp add: find_store_entries_other find_replaceOne_same)
    then show ?thesis by (rule find_Some_member)
  next
    case False
    then have "(d, vals) \<in> set ts" using Cons.prems(2) by auto
    moreover have "distinct (map fst ts)" using Cons.prems(1) by simp
    ultimately show ?thesis unfolding en by (simp add: Cons.IH)
  qed
qed

text \<open>
  Claim C4. Let a run of \<open>pullStock\<close> succeed with count \<open>n\<close> while the provider
  answers every request with the same JSON body, whose time series has the entries
  \<open>ts\<close> (an object, so its keys are distinct). Then \<open>n\<close> is the number of entries,
  the symbol's collection after the run is the old one with each entry upserted on its
  date, and a second run from the resulting state succeeds with the same count and
  leaves every collection exactly as the first run left it. No run adds a second
  record for a date: the number of records of a date becomes 1 if the date is in the
  series and there was none, and is unchanged otherwise; so a collection without two
  records of one date (the empty one in particular) has none after either run.
\<close>

theorem pullStock_idempotent:
  assumes run1: "pullStock e sy s = (Inr n, s1)"
    and same: "\<forall>u. net e u = HttpResponse st stx (JsonBody d)"
    and series: "p_Time_Series_Daily d = Some ts"
    and keys: "distinct (map fst ts)"
  shows "\<exists>s2. pullStock e sy s1 = (Inr n, s2)
     \<and> n = length ts
     \<and> stocks s1 (collectionName sy) = store_entries sy ts (stocks s (collectionName sy))
     \<and> stocks s2 = stocks s1
     \<and> (\<forall>dt. count_list (map date (stocks s1 (collectionName sy))) dt
              = (if dt \<in> fst ` set ts
                 then max 1 (count_list (map date (stocks s (collectionName sy))) dt)
                 else count_list (map date (stocks s (collectionName sy))) dt))
     \<and> (distinct (map date (stocks s (collectionName sy))) \<longrightarrow>
          distinct (map date (stocks s1 (collectionName sy)))
          \<and> distinct (map date (stocks s2 (collectionName sy))))"
proof -
  let ?c = "collectionName sy"
  from pullStock_Inr[OF run1] obtain k sk st' stx' d' ts' where
    gk: "getKey e (s\<lparr>trace := trace s @ [CallPullStock sy]\<rparr>) = (Inr k, sk)"
    and resp: "net e (stock_url sy k) = HttpResponse st' stx' (JsonBody d')"
    and ok: "response_ok st'" "error_field d' = None" "p_Time_Series_Daily d' = Some ts'"
    and n: "n = length ts'" and conn: "globalClient s \<or> ts' = []"
    by blast
  from resp same have eq: "st' = st" "d' = d" by simp_all
  with ok series have ts': "ts' = ts" by simp
  note ok1 = ok[unfolded eq ts']
  have r1: "pullStock e sy s =
    (Inr (length ts),
     sk\<lparr>stocks := (stocks s)(?c := store_entries sy ts (stocks s ?c)),
        trace := trace sk @ [HttpGet (stock_url sy k)]
                   @ map (\<lambda>(d, vals). Upsert ?c d) ts @ [Wait 5000]\<rparr>)"
    using pullStock_ok[OF gk resp[unfolded eq] ok1 conn[unfolded ts']] .
  from run1 r1 have s1: "s1 = sk\<lparr>stocks := (stocks s)(?c := store_entries sy ts (stocks s ?c)),
        trace := trace sk @ [HttpGet (stock_url sy k)]
                   @ map (\<lambda>(d, vals). Upsert ?c d) ts @ [Wait 5000]\<rparr>"
    by simp
  have conn_k: "globalClient sk = globalClient s"
    using getKey_frame(1)[of e "s\<lparr>trace := trace s @ [CallPullStock sy]\<rparr>"] gk by simp
  have st1: "stocks s1 ?c = store_entries sy ts (stocks s ?c)" unfolding s1 by simp
  have pool: "apiKeys (s1\<lparr>trace := trace s1 @ [CallPullStock sy]\<rparr>) \<noteq> []"
    using getKey_success_pool[OF gk] unfolding s1 by simp
  from getKey_loaded_ok[OF pool, of e] obtain k2 sk2 where
    gk2: "getKey e (s1\<lparr>trace := trace s1 @ [CallPullStock sy]\<rparr>) = (Inr k2, sk2)"
    by blast
  have conn1: "globalClient s1 \<or> ts = []" using conn conn_k ts' unfolding s1 by simp
  have resp2: "net e (stock_url sy k2) = HttpResponse st stx (JsonBody d)" using same by simp
  have r2: "pullStock e sy s1 =
    (Inr (length ts),
     sk2\<lparr>stocks := (stocks s1)(?c := store_entries sy ts (stocks s1 ?c)),
        trace := trace sk2 @ [HttpGet (stock_url sy k2)]
                   @ map (\<lambda>(d, vals). Upsert ?c d) ts @ [Wait 5000]\<rparr>)"
    using pullStock_ok[OF gk2 resp2 ok1 conn1] .
  let ?s2 = "sk2\<lparr>stocks := (stocks s1)(?c := store_entries sy ts (stocks s1 ?c)),
        trace := trace sk2 @ [HttpGet (stock_url sy k2)]
                   @ map (\<lambda>(d, vals). Upsert ?c d) ts @ [Wait 5000]\<rparr>"
  have idem: "store_entries sy ts (stocks s1 ?c) = stocks s1 ?c"
    unfolding st1 by (rule store_entries_idem[OF keys])
  have st2: "stocks ?s2 = stocks s1" by (simp add: idem)
  have cnt: "\<forall>dt. count_list (map date (stocks s1 ?c)) dt
              = (if dt \<in> fst ` set ts
                 then max 1 (count_list (map date (stocks s ?c)) dt)
                 else count_list (map date (stocks s ?c)) dt)"
    unfolding st1 by (simp add: store_entries_count)
  have dis: "distinct (map date (stocks s ?c)) \<longrightarrow>
          distinct (map date (stocks s1 ?c)) \<and> distinct (map date (stocks ?s2 ?c))"
    unfolding st2 unfolding st1 by (simp add: store_entries_distinct)
  show ?thesis
    using r2 n ts' st1 st2 cnt dis by (intro exI[of _ ?s2]) simp
qed

lemma store_entries_fresh:
  assumes "distinct (map fst ts)" "fst ` set ts \<inter> date ` set c = {}"
  shows "store_entries sy ts c = c @ map (\<lambda>(dt, vals). stockDoc sy dt vals) ts"
  using assms
proof (induction ts arbitrary: c)
  case Nil
  then show ?case by simp
next
  case (Cons en ts)
  obtain d vals where en: "en = (d, vals)" by (cases en)
  have nd: "d \<notin> date ` set c" using Cons.prems(2) en by auto
  have r: "replaceOne (\<lambda>x. date x = d) (stockDoc sy d vals) c = c @ [stockDoc sy d vals]"
    using nd by (induction c) auto
  have "fst ` set ts \<inter> date ` set (c @ [stockDoc sy d vals]) = {}"
    using Cons.prems en by auto
  moreover have "distinct (map fst ts)" using Cons.prems(1) by simp
  ultimately show ?case unfolding en by (simp add: r Cons.IH)
qed

lemma aapl_stockDoc: "stockDoc ''AAPL'' ''2025-12-23'' aapl_day = aapl_doc"
  by (simp add: stockDoc_def aapl_day_def aapl_doc_def to_string_def
      parseFloat_def parseInt10_def skip_ws_start js_white_space_def read_sign_def is_digit_def
      digits_val_def pow10_def read_exponent_def signed_def Let_def)

lemma getKey_aapl_first:
  "getKey env_aapl (empty_store\<lparr>trace := trace empty_store @ [CallPullStock ''AAPL'']\<rparr>)
     = (Inr ''K1'',
        empty_store\<lparr>trace := [CallPullStock ''AAPL'', ReadKeylist],
                  apiKeys := [''K1'', ''K2'', ''K3''], currentKeyIndex := 1\<rparr>)"
  by (simp add: getKey_first_call empty_store_def init_state_def env_aapl_def parse_keyfile_k3
      next_key_def)

lemma aapl_response:
  "net env_aapl u = HttpResponse 200 ''OK'' (JsonBody aapl_payload)"
  "response_ok 200" "error_field aapl_payload = None"
  "p_Time_Series_Daily aapl_payload = Some [(''2025-12-23'', aapl_day)]"
  by (simp_all add: env_aapl_def response_ok_def error_field_def aapl_payload_def)

lemma empty_store_simps:
  "globalClient empty_store" "stocks empty_store c = []" "news empty_store = []" "trace empty_store = []"
  "apiKeys empty_store = []" "currentKeyIndex empty_store = 0"
  by (simp_all add: empty_store_def init_state_def)

lemma pullStock_aapl:
  "pullStock env_aapl ''AAPL'' empty_store =
     (Inr 1,
      empty_store\<lparr>trace := [CallPullStock ''AAPL'', ReadKeylist],
                apiKeys := [''K1'', ''K2'', ''K3''], currentKeyIndex := 1,
                stocks := (stocks empty_store)(collectionName ''AAPL'' := [aapl_doc]),
                trace := [CallPullStock ''AAPL'', ReadKeylist, HttpGet (stock_url ''AAPL'' ''K1''),
                          Upsert (collectionName ''AAPL'') ''2025-12-23'', Wait 5000]\<rparr>)"
  using pullStock_ok[OF getKey_aapl_first aapl_response(1) aapl_response(2) aapl_response(3)
      aapl_response(4)]
  by (simp add: empty_store_simps aapl_stockDoc)

text \<open>Instance of claim C4: two runs for AAPL on the empty store both return 1 and
  both leave the single record of 23 December 2025.\<close>

theorem pullStock_idempotent_witness:
  "fst (pullStock env_aapl ''AAPL'' empty_store) = Inr 1
   \<and> fst (pullStock env_aapl ''AAPL'' (snd (pullStock env_aapl ''AAPL'' empty_store))) = Inr 1
   \<and> stocks (snd (pullStock env_aapl ''AAPL'' (snd (pullStock env_aapl ''AAPL'' empty_store))))
        (collectionName ''AAPL'') = [aapl_doc]
   \<and> stocks (snd (pullStock env_aapl ''AAPL'' empty_store)) (collectionName ''AAPL'') = [aapl_doc]"
proof -
  let ?s1 = "snd (pullStock env_aapl ''AAPL'' empty_store)"
  have run1: "pullStock env_aapl ''AAPL'' empty_store = (Inr 1, ?s1)"
    by (simp add: pullStock_aapl)
  have same: "\<forall>u. net env_aapl u = HttpResponse 200 ''OK'' (JsonBody aapl_payload)"
    by (simp add: aapl_response)
  have keys: "distinct (map fst [(''2025-12-23'', aapl_day)])" by simp
  from pullStock_idempotent[OF run1 same aapl_response(4) keys]
  obtain s2 where r2: "pullStock env_aapl ''AAPL'' ?s1 = (Inr 1, s2)"
    and st: "stocks s2 = stocks ?s1"
    by blast
  have s1: "stocks ?s1 (collectionName ''AAPL'') = [aapl_doc]"
    by (simp add: pullStock_aapl)
  have f1: "fst (pullStock env_aapl ''AAPL'' empty_store) = Inr 1"
    by (simp add: pullStock_aapl)
  have f2: "fst (pullStock env_aapl ''AAPL'' ?s1) = Inr 1" using r2 by simp
  have f3: "stocks (snd (pullStock env_aapl ''AAPL'' ?s1)) (collectionName ''AAPL'') = [aapl_doc]"
    using r2 st s1 by simp
  show ?thesis using f1 f2 f3 s1 by blast
qed

text \<open>
  Claim C6. Suppose a credential is obtained, the request is answered with a success
  status and a JSON body without error field whose time series is present with entries
  \<open>ts\<close>, and the store is connected. Then \<open>pullStock\<close> succeeds and returns the
  number of entries; the symbol's collection is the old one with each entry upserted on
  its date, in order, the other collections and the news are untouched; the trace shows
  the request, one upsert per entry, then one delay; with distinct keys every entry's
  record (symbol, date, the four prices read by \<open>parseFloat\<close>, the volume read by
  \<open>parseInt\<close>, each a double) is in the collection afterwards, and from an empty
  collection the result is exactly one record per entry. Conversely every successful run returns the
  length of a series that was present, so the count is 0 only for a present, empty
  series.
\<close>

theorem pullStock_stores_series:
  assumes "getKey e (s\<lparr>trace := trace s @ [CallPullStock sy]\<rparr>) = (Inr k, sk)"
    and "net e (stock_url sy k) = HttpResponse st stx (JsonBody d)"
    and "response_ok st" and "error_field d = None"
    and "p_Time_Series_Daily d = Some ts"
    and "globalClient s"
  shows "\<exists>s'. pullStock e sy s = (Inr (length ts), s')
     \<and> stocks s' (collectionName sy) = store_entries sy ts (stocks s (collectionName sy))
     \<and> (\<forall>c. c \<noteq> collectionName sy \<longrightarrow> stocks s' c = stocks s c)
     \<and> news s' = news s
     \<and> trace s' = trace sk @ [HttpGet (stock_url sy k)]
                    @ map (\<lambda>(dt, vals). Upsert (collectionName sy) dt) ts @ [Wait 5000]
     \<and> (length ts = 0 \<longleftrightarrow> ts = [])
     \<and> (\<forall>e2 sy2 t n t'. pullStock e2 sy2 t = (Inr n, t') \<longrightarrow>
            (\<exists>k2 sk2 st2 stx2 d2 ts2.
                getKey e2 (t\<lparr>trace := trace t @ [CallPullStock sy2]\<rparr>) = (Inr k2, sk2)
                \<and> net e2 (stock_url sy2 k2) = HttpResponse st2 stx2 (JsonBody d2)
                \<and> p_Time_Series_Daily d2 = Some ts2 \<and> n = length ts2))
     \<and> (distinct (map fst ts) \<longrightarrow>
          (\<forall>(dt, vals)\<in>set ts.
              \<lparr>symbol = sy, date = dt,
               open_price = parseFloat (to_string (map_of vals ''1. open'')),
               high = parseFloat (to_string (map_of vals ''2. high'')),
               low = parseFloat (to_string (map_of vals ''3. low'')),
               close = parseFloat (to_string (map_of vals ''4. close'')),
               volume = parseInt10 (to_string (map_of vals ''5. volume''))\<rparr>
               \<in> set (stocks s' (collectionName sy))))
     \<and> (distinct (map fst ts) \<and> stocks s (collectionName sy) = [] \<longrightarrow>
          stocks s' (collectionName sy) = map (\<lambda>(dt, vals). stockDoc sy dt vals) ts)"
proof -
  let ?c = "collectionName sy"
  let ?s' = "sk\<lparr>stocks := (stocks s)(?c := store_entries sy ts (stocks s ?c)),
        trace := trace sk @ [HttpGet (stock_url sy k)]
                   @ map (\<lambda>(d, vals). Upsert ?c d) ts @ [Wait 5000]\<rparr>"
  have g: "globalClient s \<or> ts = []" using assms(6) by simp
  have r: "pullStock e sy s = (Inr (length ts), ?s')"
    using pullStock_ok[OF assms(1-5) g] .
  have nk: "news sk = news s"
    using getKey_frame(3)[of e "s\<lparr>trace := trace s @ [CallPullStock sy]\<rparr>"] assms(1) by simp
  have mem: "distinct (map fst ts) \<longrightarrow>
          (\<forall>(dt, vals)\<in>set ts.
              \<lparr>symbol = sy, date = dt,
               open_price = parseFloat (to_string (map_of vals ''1. open'')),
               high = parseFloat (to_string (map_of vals ''2. high'')),
               low = parseFloat (to_string (map_of vals ''3. low'')),
               close = parseFloat (to_string (map_of vals ''4. close'')),
               volume = parseInt10 (to_string (map_of vals ''5. volume''))\<rparr>
               \<in> set (stocks ?s' ?c))"
    using store_entries_member[of ts _ _ sy "stocks s ?c"]
    by (auto simp: stockDoc_def)
  have fresh: "distinct (map fst ts) \<and> stocks s ?c = [] \<longrightarrow>
          stocks ?s' ?c = map (\<lambda>(dt, vals). stockDoc sy dt vals) ts"
    using store_entries_fresh[of ts "[]" sy] by simp
  have conv: "\<forall>e2 sy2 t n t'. pullStock e2 sy2 t = (Inr n, t') \<longrightarrow>
            (\<exists>k2 sk2 st2 stx2 d2 ts2.
                getKey e2 (t\<lparr>trace := trace t @ [CallPullStock sy2]\<rparr>) = (Inr k2, sk2)
                \<and> net e2 (stock_url sy2 k2) = HttpResponse st2 stx2 (JsonBody d2)
                \<and> p_Time_Series_Daily d2 = Some ts2 \<and> n = length ts2)"
    using pullStock_Inr by blast
  show ?thesis
    using r nk mem fresh conv by (intro exI[of _ ?s']) simp
qed

text \<open>The scenario of claim C6: the one-day AAPL payload stores exactly the record
  with open 270.97, high 272.45, low 269.56, close 272.36, volume 29360026 (each the
  double nearest to the decimal, whose exact value is given), and the count returned
  is 1.\<close>

theorem pullStock_stores_series_witness:
  "fst (pullStock env_aapl ''AAPL'' empty_store) = Inr 1
   \<and> stocks (snd (pullStock env_aapl ''AAPL'' empty_store)) ''stock-AAPL''
       = [\<lparr>symbol = ''AAPL'', date = ''2025-12-23'',
            open_price = round_double (27097 / 100), high = round_double (27245 / 100),
            low = round_double (26956 / 100), close = round_double (27236 / 100),
            volume = round_double 29360026\<rparr>]
   \<and> round_double (27097 / 100) = Num (1191738663113851 / 4398046511104)
   \<and> round_double (27245 / 100) = Num (4792991087801139 / 17592186044416)
   \<and> round_double (26956 / 100) = Num (4742149670132777 / 17592186044416)
   \<and> round_double (27236 / 100) = Num (2395703895528571 / 8796093022208)
   \<and> round_double 29360026 = Num 29360026"
proof -
  have keys: "distinct (map fst [(''2025-12-23'', aapl_day)])
              \<and> stocks empty_store (collectionName ''AAPL'') = []"
    by (simp add: empty_store_simps)
  from pullStock_stores_series[OF getKey_aapl_first aapl_response(1) aapl_response(2)
      aapl_response(3) aapl_response(4) empty_store_simps(1)]
  obtain s' where r: "pullStock env_aapl ''AAPL'' empty_store
                        = (Inr (length [(''2025-12-23'', aapl_day)]), s')"
    and st: "distinct (map fst [(''2025-12-23'', aapl_day)])
             \<and> stocks empty_store (collectionName ''AAPL'') = [] \<longrightarrow>
          stocks s' (collectionName ''AAPL'')
            = map (\<lambda>(dt, vals). stockDoc ''AAPL'' dt vals) [(''2025-12-23'', aapl_day)]"
    by blast
  from st keys have "stocks s' (collectionName ''AAPL'') = [aapl_doc]"
    by (simp add: aapl_stockDoc)
  then have a: "fst (pullStock env_aapl ''AAPL'' empty_store) = Inr 1
     \<and> stocks (snd (pullStock env_aapl ''AAPL'' empty_store)) ''stock-AAPL''
       = [\<lparr>symbol = ''AAPL'', date = ''2025-12-23'',
            open_price = round_double (27097 / 100), high = round_double (27245 / 100),
            low = round_double (26956 / 100), close = round_double (27236 / 100),
            volume = round_double 29360026\<rparr>]"
    using r by (simp add: collectionName_def aapl_doc_def)
  have "round_double (of_int 29360026) = Num (of_int 29360026)"
    by (rule round_double_int) simp_all
  then have v: "round_double 29360026 = Num 29360026" by simp
  show ?thesis using a v round_double_values(2-5) by simp
qed

section \<open>The price query: properties\<close>

lemma pull_calls_append [simp]: "pull_calls (xs @ ys) = pull_calls xs @ pull_calls ys"
  by (induction xs rule: pull_calls.induct) simp_all

lemma pull_calls_upserts [simp]: "pull_calls (map (\<lambda>(d, vals). Upsert c d) ts) = []"
  by (induction ts) auto

lemma waits_append [simp]: "waits (xs @ ys) = waits xs + waits ys"
  by (simp add: waits_def)

lemma waits_simps [simp]:
  "waits [] = 0" "waits (Wait ms # evs) = Suc (waits evs)"
  "waits (ReadKeylist # evs) = waits evs" "waits (HttpGet u # evs) = waits evs"
  "waits (FindStock c f b l # evs) = waits evs" "waits (FindNews a1 a2 a3 # evs) = waits evs"
  "waits (Upsert c d # evs) = waits evs" "waits (CallPullStock sy # evs) = waits evs"
  "waits (CallPullNews t1 t2 # evs) = waits evs"
  by (simp_all add: waits_def)

lemma waits_upserts [simp]: "waits (map (\<lambda>(d, vals). Upsert c d) ts) = 0"
  by (induction ts) auto

lemma pull_calls_upserts' [simp]: "pull_calls (map (Upsert c) ds) = []"
  by (induction ds) auto

lemma waits_upserts' [simp]: "waits (map (Upsert c) ds) = 0"
  by (induction ds) auto

lemma upsert_entries_Inl:
  assumes "upsert_entries sy ts cnt s = (Inl err, s')"
  shows "s' = s \<and> err = not_connected \<and> \<not> globalClient s \<and> ts \<noteq> []"
proof (cases "globalClient s \<or> ts = []")
  case True
  then show ?thesis using assms by (simp add: upsert_entries_connected)
next
  case False
  then show ?thesis using assms upsert_entries_disconnected[of s ts sy cnt] by simp
qed

text \<open>The trace of one \<open>pullStock\<close>: the call, at most one read of the key file, at
  most one request, then on success the upserts and one delay, in that order.\<close>

lemma pullStock_trace:
  "\<exists>keyev rest. trace (snd (pullStock e sy s)) = trace s @ [CallPullStock sy] @ keyev @ rest
      \<and> (keyev = [] \<or> keyev = [ReadKeylist])
      \<and> (case fst (pullStock e sy s) of
            Inl err \<Rightarrow> rest = [] \<or> (\<exists>u. rest = [HttpGet u])
          | Inr n \<Rightarrow> (\<exists>u ds. length ds = n \<and>
                rest = [HttpGet u] @ map (Upsert (collectionName sy)) ds @ [Wait 5000]))"
proof -
  let ?s0 = "s\<lparr>trace := trace s @ [CallPullStock sy]\<rparr>"
  obtain rk sk where gk: "getKey e ?s0 = (rk, sk)" by (cases "getKey e ?s0")
  from getKey_trace[of e ?s0] gk
  obtain keyev where ke: "trace sk = trace s @ [CallPullStock sy] @ keyev"
      "keyev = [] \<or> keyev = [ReadKeylist]"
    by auto
  show ?thesis
  proof (cases rk)
    case (Inl err)
    then have p: "pullStock e sy s = (Inl err, sk)" using gk by (simp add: pullStock_def)
    show ?thesis
      by (rule exI[of _ keyev], rule exI[of _ "[]"]) (use p ke in simp)
  next
    case (Inr k)
    let ?u = "stock_url sy k"
    let ?s2 = "sk\<lparr>trace := trace sk @ [HttpGet ?u]\<rparr>"
    obtain rf where fj: "fetch_json e ''stock'' ?u sk = (rf, ?s2)"
      using fetch_json_state[of e "''stock''" ?u sk]
      by (cases "fetch_json e ''stock'' ?u sk") simp
    show ?thesis
    proof (cases rf)
      case (Inl err)
      then have p: "pullStock e sy s = (Inl err, ?s2)"
        using gk Inr fj by (simp add: pullStock_def)
      show ?thesis
        by (rule exI[of _ keyev], rule exI[of _ "[HttpGet ?u]"]) (use p ke in simp)
    next
      case rfd: (Inr d)
      show ?thesis
      proof (cases "p_Time_Series_Daily d")
        case None
        then obtain err where p: "pullStock e sy s = (Inl err, ?s2)"
          using gk Inr fj rfd by (simp add: pullStock_def)
        show ?thesis
          by (rule exI[of _ keyev], rule exI[of _ "[HttpGet ?u]"]) (use p ke in simp)
      next
        case (Some ts)
        obtain ru s3 where up: "upsert_entries sy ts 0 ?s2 = (ru, s3)"
          by (cases "upsert_entries sy ts 0 ?s2")
        show ?thesis
        proof (cases ru)
          case (Inl err)
          from upsert_entries_Inl[OF up[unfolded Inl]] have "s3 = ?s2" by simp
          then have p: "pullStock e sy s = (Inl err, ?s2)"
            using gk Inr fj rfd Some up Inl by (simp add: pullStock_def)
          show ?thesis
            by (rule exI[of _ keyev], rule exI[of _ "[HttpGet ?u]"]) (use p ke in simp)
        next
          case run: (Inr n)
          from upsert_entries_Inr[OF up[unfolded run]]
          have n: "n = length ts" and c: "globalClient ?s2 \<or> ts = []" by simp_all
          have "s3 = ?s2\<lparr>stocks := (stocks ?s2)(collectionName sy :=
                        store_entries sy ts (stocks ?s2 (collectionName sy))),
                     trace := trace ?s2 @ map (\<lambda>(d, vals). Upsert (collectionName sy) d) ts\<rparr>"
            using up upsert_entries_connected[OF c, of sy 0] by simp
          then have p: "pullStock e sy s = (Inr n, waitAfterApiCall s3)"
            and tr: "trace (waitAfterApiCall s3) = trace sk @ [HttpGet ?u]
                   @ map (\<lambda>(d, vals). Upsert (collectionName sy) d) ts @ [Wait 5000]"
            using gk Inr fj rfd Some up run by (simp_all add: pullStock_def waitAfterApiCall_def)
          show ?thesis
            apply (rule exI[of _ keyev])
            apply (rule exI[of _ "[HttpGet ?u]
                   @ map (\<lambda>(d, vals). Upsert (collectionName sy) d) ts @ [Wait 5000]"])
            using p tr ke n by (auto intro!: exI[of _ "map fst ts"] simp: case_prod_beta)

        qed
      qed
    qed
  qed
qed

lemma pullStock_calls_and_waits:
  "pull_calls (trace (snd (pullStock e sy s))) = pull_calls (trace s) @ [sy]"
  "waits (trace (snd (pullStock e sy s)))
     = waits (trace s) + (case fst (pullStock e sy s) of Inl err \<Rightarrow> 0 | Inr n \<Rightarrow> 1)"
proof -
  from pullStock_trace[of e sy s] obtain keyev rest where
    t: "trace (snd (pullStock e sy s)) = trace s @ [CallPullStock sy] @ keyev @ rest"
    and k: "keyev = [] \<or> keyev = [ReadKeylist]"
    and r: "case fst (pullStock e sy s) of
            Inl err \<Rightarrow> rest = [] \<or> (\<exists>u. rest = [HttpGet u])
          | Inr n \<Rightarrow> (\<exists>u ds. length ds = n \<and>
                rest = [HttpGet u] @ map (Upsert (collectionName sy)) ds @ [Wait 5000])"
    by blast
  show "pull_calls (trace (snd (pullStock e sy s))) = pull_calls (trace s) @ [sy]"
    unfolding t using k r by (cases "fst (pullStock e sy s)") auto
  show "waits (trace (snd (pullStock e sy s)))
     = waits (trace s) + (case fst (pullStock e sy s) of Inl err \<Rightarrow> 0 | Inr n \<Rightarrow> 1)"
    unfolding t using k r by (cases "fst (pullStock e sy s)") auto
qed

lemma pullStock_Inl_state:
  assumes "pullStock e sy s = (Inl err, s')"
  shows "s' = snd (getKey e (s\<lparr>trace := trace s @ [CallPullStock sy]\<rparr>))
       \<or> (\<exists>u. s' = (snd (getKey e (s\<lparr>trace := trace s @ [CallPullStock sy]\<rparr>)))
                      \<lparr>trace := trace (snd (getKey e (s\<lparr>trace := trace s @ [CallPullStock sy]\<rparr>)))
                                  @ [HttpGet u]\<rparr>)"
proof -
  let ?s0 = "s\<lparr>trace := trace s @ [CallPullStock sy]\<rparr>"
  obtain rk sk where gk: "getKey e ?s0 = (rk, sk)" by (cases "getKey e ?s0")
  show ?thesis
  proof (cases rk)
    case (Inl er)
    then show ?thesis using gk assms by (simp add: pullStock_def)
  next
    case (Inr k)
    let ?u = "stock_url sy k"
    let ?s2 = "sk\<lparr>trace := trace sk @ [HttpGet ?u]\<rparr>"
    obtain rf where fj: "fetch_json e ''stock'' ?u sk = (rf, ?s2)"
      using fetch_json_state[of e "''stock''" ?u sk]
      by (cases "fetch_json e ''stock'' ?u sk") simp
    have "s' = ?s2"
    proof (cases rf)
      case (Inl er)
      then show ?thesis using gk Inr fj assms by (simp add: pullStock_def)
    next
      case rfd: (Inr d)
      show ?thesis
      proof (cases "p_Time_Series_Daily d")
        case None
        then show ?thesis using gk Inr fj rfd assms by (simp add: pullStock_def)
      next
        case (Some ts)
        obtain ru s3 where up: "upsert_entries sy ts 0 ?s2 = (ru, s3)"
          by (cases "upsert_entries sy ts 0 ?s2")
        then obtain er where ru: "ru = Inl er"
          using gk Inr fj rfd Some assms by (cases ru) (auto simp: pullStock_def)
        from upsert_entries_Inl[OF up[unfolded ru]] have "s3 = ?s2" by simp
        then show ?thesis using gk Inr fj rfd Some up ru assms by (simp add: pullStock_def)
      qed
    qed
    then show ?thesis using gk by auto
  qed
qed

lemma pullStock_frame:
  "globalClient (snd (pullStock e sy s)) = globalClient s"
  "news (snd (pullStock e sy s)) = news s"
proof -
  let ?s0 = "s\<lparr>trace := trace s @ [CallPullStock sy]\<rparr>"
  obtain r s' where p: "pullStock e sy s = (r, s')" by (cases "pullStock e sy s")
  have "globalClient s' = globalClient s \<and> news s' = news s"
  proof (cases r)
    case (Inl err)
    from pullStock_Inl_state[OF p[unfolded Inl]] getKey_frame[of e ?s0]
    show ?thesis by auto
  next
    case (Inr n)
    from pullStock_Inr[OF p[unfolded Inr]] obtain k sk st stx d ts where
      gk: "getKey e ?s0 = (Inr k, sk)"
      and resp: "net e (stock_url sy k) = HttpResponse st stx (JsonBody d)"
        "response_ok st" "error_field d = None" "p_Time_Series_Daily d = Some ts"
      and c: "globalClient s \<or> ts = []"
      by blast
    from pullStock_ok[OF gk resp c] p getKey_frame[of e ?s0] gk
    show ?thesis by auto
  qed
  then show "globalClient (snd (pullStock e sy s)) = globalClient s"
    and "news (snd (pullStock e sy s)) = news s"
    using p by simp_all
qed

lemma findStock_connected:
  assumes "globalClient s"
  shows "findStockDocuments c None True (Some 100) s
           = (Inr (take 100 (sort_date_desc (stocks s c))),
              s\<lparr>trace := trace s @ [FindStock c None True (Some 100)]\<rparr>)"
    and "findStockDocuments c (Some f) False None s
           = (Inr (filter (\<lambda>x. date x = f) (stocks s c)),
              s\<lparr>trace := trace s @ [FindStock c (Some f) False None]\<rparr>)"
  using assms by (simp_all add: findStockDocuments_def)

lemma latest_empty_iff: "take 100 (sort_date_desc c) = [] \<longleftrightarrow> c = []"
proof -
  have "length (sort_key date c) = length c" by simp
  then have "sort_key date c = [] \<longleftrightarrow> c = []" by (metis length_0_conv)
  then show ?thesis by (simp add: sort_date_desc_def)
qed

lemma latest_sorted:
  "sorted (rev (map date (take 100 (sort_date_desc c))))"
  "length (take 100 (sort_date_desc c)) \<le> 100"
  "set (take 100 (sort_date_desc c)) \<subseteq> set c"
proof -
  have "take 100 (rev (sort_key date c)) = rev (drop (length c - 100) (sort_key date c))"
    by (simp add: take_rev)
  then have "rev (map date (take 100 (sort_date_desc c)))
           = drop (length c - 100) (map date (sort_key date c))"
    by (simp add: sort_date_desc_def rev_map drop_map)
  then show "sorted (rev (map date (take 100 (sort_date_desc c))))"
    by (simp add: sorted_wrt_drop)
  show "length (take 100 (sort_date_desc c)) \<le> 100" by simp
  show "set (take 100 (sort_date_desc c)) \<subseteq> set c"
    using set_take_subset[of 100 "sort_date_desc c"] by (simp add: sort_date_desc_def)
qed

lemma processGetStockPrices_no_date:
  "dt = None \<or> dt = Some [] \<Longrightarrow> processGetStockPrices e sy dt s = latest_prices e sy s"
  by (auto simp: processGetStockPrices_def)

lemma latest_prices_hit:
  assumes "globalClient s" "stocks s (collectionName sy) \<noteq> []"
  shows "latest_prices e sy s =
    (Inr \<lparr>message = ''Found '' @ show_nat (length (take 100 (sort_date_desc (stocks s (collectionName sy)))))
                   @ '' stock price records for '' @ sy,
           data = DataDocs (take 100 (sort_date_desc (stocks s (collectionName sy)))),
           error = None\<rparr>,
     s\<lparr>trace := trace s @ [FindStock (collectionName sy) None True (Some 100)]\<rparr>)"
proof -
  define docs where "docs = take 100 (sort_date_desc (stocks s (collectionName sy)))"
  have ne: "docs \<noteq> []"
    unfolding docs_def using assms(2) by (simp only: latest_empty_iff not_False_eq_True)
  have f: "findStockDocuments (collectionName sy) None True (Some 100) s
             = (Inr docs, s\<lparr>trace := trace s @ [FindStock (collectionName sy) None True (Some 100)]\<rparr>)"
    unfolding docs_def by (rule findStock_connected(1)[OF assms(1)])
  have "latest_prices e sy s =
    (Inr \<lparr>message = ''Found '' @ show_nat (length docs) @ '' stock price records for '' @ sy,
           data = DataDocs docs, error = None\<rparr>,
     s\<lparr>trace := trace s @ [FindStock (collectionName sy) None True (Some 100)]\<rparr>)"
    unfolding latest_prices_def f using ne by simp
  then show ?thesis unfolding docs_def .
qed

lemma latest_prices_miss:
  assumes "globalClient s" "stocks s (collectionName sy) = []"
  shows "latest_prices e sy s =
    (case pullStock e sy (s\<lparr>trace := trace s @ [FindStock (collectionName sy) None True (Some 100)]\<rparr>) of
       (Inl errorMessage, s2) \<Rightarrow> (Inr (auto_pull_failed sy (DataDocs []) errorMessage), s2)
     | (Inr cnt, s2) \<Rightarrow>
         (if stocks s2 (collectionName sy) = [] then
            (Inr \<lparr>message = ''No stock data found for '' @ sy @ '' (even after pulling from API)'',
                   data = DataDocs [], error = None\<rparr>,
             s2\<lparr>trace := trace s2 @ [FindStock (collectionName sy) None True (Some 100)]\<rparr>)
          else
            (Inr \<lparr>message = ''Found ''
                     @ show_nat (length (take 100 (sort_date_desc (stocks s2 (collectionName sy)))))
                     @ '' stock price records for '' @ sy @ '' (freshly pulled from API)'',
                   data = DataDocs (take 100 (sort_date_desc (stocks s2 (collectionName sy)))),
                   error = None\<rparr>,
             s2\<lparr>trace := trace s2 @ [FindStock (collectionName sy) None True (Some 100)]\<rparr>)))"
proof -
  let ?c = "collectionName sy"
  let ?s1 = "s\<lparr>trace := trace s @ [FindStock ?c None True (Some 100)]\<rparr>"
  obtain r s2 where p: "pullStock e sy ?s1 = (r, s2)" by (cases "pullStock e sy ?s1")
  have g2: "globalClient s2"
    using pullStock_frame(1)[of e sy ?s1] p assms(1) by simp
  have f1: "findStockDocuments ?c None True (Some 100) s = (Inr [], ?s1)"
    using findStock_connected(1)[OF assms(1), of ?c] assms(2) by (simp add: sort_date_desc_def)
  define docs2 where "docs2 = take 100 (sort_date_desc (stocks s2 ?c))"
  have f2: "findStockDocuments ?c None True (Some 100) s2
              = (Inr docs2, s2\<lparr>trace := trace s2 @ [FindStock ?c None True (Some 100)]\<rparr>)"
    unfolding docs2_def by (rule findStock_connected(1)[OF g2])
  have e2: "docs2 = [] \<longleftrightarrow> stocks s2 ?c = []"
    unfolding docs2_def by (rule latest_empty_iff)
  show ?thesis
  proof (cases r)
    case (Inl err)
    have "latest_prices e sy s = (Inr (auto_pull_failed sy (DataDocs []) err), s2)"
      unfolding latest_prices_def f1 using p Inl by simp
    then show ?thesis unfolding p Inl by simp
  next
    case (Inr n)
    have "latest_prices e sy s =
         (if stocks s2 ?c = [] then
            (Inr \<lparr>message = ''No stock data found for '' @ sy @ '' (even after pulling from API)'',
                   data = DataDocs [], error = None\<rparr>,
             s2\<lparr>trace := trace s2 @ [FindStock ?c None True (Some 100)]\<rparr>)
          else
            (Inr \<lparr>message = ''Found '' @ show_nat (length docs2)
                     @ '' stock price records for '' @ sy @ '' (freshly pulled from API)'',
                   data = DataDocs docs2, error = None\<rparr>,
             s2\<lparr>trace := trace s2 @ [FindStock ?c None True (Some 100)]\<rparr>))"
      unfolding latest_prices_def f1 using p Inr f2 e2 by simp
    then show ?thesis unfolding p Inr docs2_def by simp
  qed
qed

lemma latest_prices_calls:
  assumes "globalClient s" "stocks s (collectionName sy) = []"
  shows "pull_calls (trace (snd (latest_prices e sy s))) = pull_calls (trace s) @ [sy]"
proof -
  let ?c = "collectionName sy"
  let ?s1 = "s\<lparr>trace := trace s @ [FindStock ?c None True (Some 100)]\<rparr>"
  obtain r s2 where p: "pullStock e sy ?s1 = (r, s2)" by (cases "pullStock e sy ?s1")
  have c2: "pull_calls (trace s2) = pull_calls (trace s) @ [sy]"
    using pullStock_calls_and_waits(1)[of e sy ?s1] p by simp
  show ?thesis
    unfolding latest_prices_miss[OF assms] p
    using c2 by (cases r) simp_all
qed

text \<open>
  Claim C1. Let the store be connected, the symbol's collection empty and no date given
  (absent or the empty string). Then \<open>processGetStockPrices\<close> returns a result (it
  does not throw) and the trace gains exactly one invocation of \<open>pullStock\<close>, for this
  symbol. If that invocation returns, the same read (collection, no filter, date
  descending, limit 100) is made again right after it and nothing else follows; what it
  yields is sorted by date descending, and the result is the "freshly pulled" one with
  those records when there is at least one, and the "even after pulling" one with an
  empty list and no error field when there is none. If the collection is non-empty
  after the call, a second call with the same symbol, under any environment, makes
  that one read only and returns the records found, with the plain message.
\<close>

theorem get_stock_prices_cache_fill:
  assumes "globalClient s" and "stocks s (collectionName sy) = []" and "dt = None \<or> dt = Some []"
  shows "\<exists>r s'. processGetStockPrices e sy dt s = (Inr r, s')
     \<and> pull_calls (trace s') = pull_calls (trace s) @ [sy]
     \<and> (\<forall>n s2. pullStock e sy (s\<lparr>trace := trace s @ [FindStock (collectionName sy) None True (Some 100)]\<rparr>)
                  = (Inr n, s2) \<longrightarrow>
          s' = s2\<lparr>trace := trace s2 @ [FindStock (collectionName sy) None True (Some 100)]\<rparr>
          \<and> sorted (rev (map date (take 100 (sort_date_desc (stocks s2 (collectionName sy))))))
          \<and> (take 100 (sort_date_desc (stocks s2 (collectionName sy))) \<noteq> [] \<longrightarrow>
               r = \<lparr>message = ''Found ''
                        @ show_nat (length (take 100 (sort_date_desc (stocks s2 (collectionName sy)))))
                        @ '' stock price records for '' @ sy @ '' (freshly pulled from API)'',
                    data = DataDocs (take 100 (sort_date_desc (stocks s2 (collectionName sy)))),
                    error = None\<rparr>)
          \<and> (take 100 (sort_date_desc (stocks s2 (collectionName sy))) = [] \<longrightarrow>
               r = \<lparr>message = ''No stock data found for '' @ sy @ '' (even after pulling from API)'',
                    data = DataDocs [], error = None\<rparr>))
     \<and> (stocks s' (collectionName sy) \<noteq> [] \<longrightarrow>
          (\<forall>e'. processGetStockPrices e' sy dt s' =
             (Inr \<lparr>message = ''Found ''
                      @ show_nat (length (take 100 (sort_date_desc (stocks s' (collectionName sy)))))
                      @ '' stock price records for '' @ sy,
                    data = DataDocs (take 100 (sort_date_desc (stocks s' (collectionName sy)))),
                    error = None\<rparr>,
              s'\<lparr>trace := trace s' @ [FindStock (collectionName sy) None True (Some 100)]\<rparr>)))"
proof -
  let ?c = "collectionName sy"
  let ?find = "FindStock ?c None True (Some 100)"
  let ?s1 = "s\<lparr>trace := trace s @ [?find]\<rparr>"
  obtain r0 s2 where p: "pullStock e sy ?s1 = (r0, s2)" by (cases "pullStock e sy ?s1")
  have g2: "globalClient s2" using pullStock_frame(1)[of e sy ?s1] p assms(1) by simp
  have calls: "pull_calls (trace (snd (latest_prices e sy s))) = pull_calls (trace s) @ [sy]"
    by (rule latest_prices_calls[OF assms(1,2)])
  have hit: "processGetStockPrices e' sy dt t =
             (Inr \<lparr>message = ''Found ''
                      @ show_nat (length (take 100 (sort_date_desc (stocks t ?c))))
                      @ '' stock price records for '' @ sy,
                    data = DataDocs (take 100 (sort_date_desc (stocks t ?c))),
                    error = None\<rparr>,
              t\<lparr>trace := trace t @ [?find]\<rparr>)"
    if "globalClient t" "stocks t ?c \<noteq> []" for e' t
    using latest_prices_hit[OF that] processGetStockPrices_no_date[OF assms(3)] by simp
  have miss: "processGetStockPrices e sy dt s = latest_prices e sy s"
    by (rule processGetStockPrices_no_date[OF assms(3)])
  note lm = latest_prices_miss[OF assms(1,2), of e, unfolded p]
  show ?thesis
  proof (cases r0)
    case (Inl err)
    have res: "processGetStockPrices e sy dt s = (Inr (auto_pull_failed sy (DataDocs []) err), s2)"
      unfolding miss lm Inl by simp
    have c2: "pull_calls (trace s2) = pull_calls (trace s) @ [sy]"
      using calls res miss by simp
    show ?thesis
      apply (rule exI[of _ "auto_pull_failed sy (DataDocs []) err"])
      apply (rule exI[of _ s2])
      using res c2 p Inl hit[OF g2] by simp
  next
    case (Inr n)
    let ?docs = "take 100 (sort_date_desc (stocks s2 ?c))"
    let ?s' = "s2\<lparr>trace := trace s2 @ [?find]\<rparr>"
    let ?r = "if stocks s2 ?c = [] then
                \<lparr>message = ''No stock data found for '' @ sy @ '' (even after pulling from API)'',
                 data = DataDocs [], error = None\<rparr>
              else
                \<lparr>message = ''Found '' @ show_nat (length ?docs)
                     @ '' stock price records for '' @ sy @ '' (freshly pulled from API)'',
                 data = DataDocs ?docs, error = None\<rparr>"
    have res: "processGetStockPrices e sy dt s = (Inr ?r, ?s')"
      unfolding miss lm Inr by simp
    have c2: "pull_calls (trace ?s') = pull_calls (trace s) @ [sy]"
      using calls res miss by simp
    have g': "globalClient ?s'" using g2 by simp
    have e2: "?docs = [] \<longleftrightarrow> stocks s2 ?c = []" by (rule latest_empty_iff)
    have r1: "?docs \<noteq> [] \<longrightarrow> ?r = \<lparr>message = ''Found '' @ show_nat (length ?docs)
                     @ '' stock price records for '' @ sy @ '' (freshly pulled from API)'',
                 data = DataDocs ?docs, error = None\<rparr>"
      unfolding e2 by simp
    have r2: "?docs = [] \<longrightarrow> ?r =
                \<lparr>message = ''No stock data found for '' @ sy @ '' (even after pulling from API)'',
                 data = DataDocs [], error = None\<rparr>"
      unfolding e2 by simp
    have h: "stocks ?s' ?c \<noteq> [] \<longrightarrow>
          (\<forall>e'. processGetStockPrices e' sy dt ?s' =
             (Inr \<lparr>message = ''Found ''
                      @ show_nat (length (take 100 (sort_date_desc (stocks ?s' ?c))))
                      @ '' stock price records for '' @ sy,
                    data = DataDocs (take 100 (sort_date_desc (stocks ?s' ?c))),
                    error = None\<rparr>,
              ?s'\<lparr>trace := trace ?s' @ [?find]\<rparr>))"
      using hit[OF g'] by blast
    have u: "\<forall>n' s2'. pullStock e sy ?s1 = (Inr n', s2') \<longrightarrow>
          ?s' = s2'\<lparr>trace := trace s2' @ [?find]\<rparr>
          \<and> sorted (rev (map date (take 100 (sort_date_desc (stocks s2' ?c)))))
          \<and> (take 100 (sort_date_desc (stocks s2' ?c)) \<noteq> [] \<longrightarrow>
               ?r = \<lparr>message = ''Found ''
                        @ show_nat (length (take 100 (sort_date_desc (stocks s2' ?c))))
                        @ '' stock price records for '' @ sy @ '' (freshly pulled from API)'',
                    data = DataDocs (take 100 (sort_date_desc (stocks s2' ?c))),
                    error = None\<rparr>)
          \<and> (take 100 (sort_date_desc (stocks s2' ?c)) = [] \<longrightarrow>
               ?r = \<lparr>message = ''No stock data found for '' @ sy @ '' (even after pulling from API)'',
                    data = DataDocs [], error = None\<rparr>)"
      using r1 r2 latest_sorted(1)[of "stocks s2 ?c"] unfolding p Inr by blast
    show ?thesis
      apply (rule exI[of _ ?r])
      apply (rule exI[of _ ?s'])
      using res c2 u h by blast
  qed
qed

lemma pullStock_aapl_any:
  assumes "globalClient s" "apiKeys s = []" "currentKeyIndex s = 0"
  shows "pullStock env_aapl ''AAPL'' s =
     (Inr 1,
      s\<lparr>trace := trace s @ [CallPullStock ''AAPL'', ReadKeylist],
        apiKeys := [''K1'', ''K2'', ''K3''], currentKeyIndex := 1,
        stocks := (stocks s)(collectionName ''AAPL'' :=
                     store_entries ''AAPL'' [(''2025-12-23'', aapl_day)] (stocks s (collectionName ''AAPL''))),
        trace := trace s @ [CallPullStock ''AAPL'', ReadKeylist, HttpGet (stock_url ''AAPL'' ''K1''),
                          Upsert (collectionName ''AAPL'') ''2025-12-23'', Wait 5000]\<rparr>)"
proof -
  have gk: "getKey env_aapl (s\<lparr>trace := trace s @ [CallPullStock ''AAPL'']\<rparr>)
     = (Inr ''K1'',
        s\<lparr>trace := trace s @ [CallPullStock ''AAPL'', ReadKeylist],
          apiKeys := [''K1'', ''K2'', ''K3''], currentKeyIndex := 1\<rparr>)"
    using assms by (simp add: getKey_first_call env_aapl_def parse_keyfile_k3 next_key_def)
  have c: "globalClient s \<or> [(''2025-12-23'', aapl_day)] = []" using assms(1) by simp
  show ?thesis
    using pullStock_ok[OF gk aapl_response(1) aapl_response(2) aapl_response(3) aapl_response(4) c]
    by simp
qed

text \<open>Instance of claim C1: the first query for AAPL on the empty store pulls once
  and answers "freshly pulled"; the second, made while the key file is missing and the
  provider unreachable, answers from the store and pulls nothing.\<close>

theorem get_stock_prices_cache_fill_witness:
  "fst (processGetStockPrices env_aapl ''AAPL'' None empty_store)
     = Inr \<lparr>message = ''Found 1 stock price records for AAPL (freshly pulled from API)'',
            data = DataDocs [aapl_doc], error = None\<rparr>
   \<and> pull_calls (trace (snd (processGetStockPrices env_aapl ''AAPL'' None empty_store))) = [''AAPL'']
   \<and> fst (processGetStockPrices env_nofile ''AAPL'' None
            (snd (processGetStockPrices env_aapl ''AAPL'' None empty_store)))
     = Inr \<lparr>message = ''Found 1 stock price records for AAPL'',
            data = DataDocs [aapl_doc], error = None\<rparr>
   \<and> pull_calls (trace (snd (processGetStockPrices env_nofile ''AAPL'' None
            (snd (processGetStockPrices env_aapl ''AAPL'' None empty_store))))) = [''AAPL'']"
proof -
  let ?c = "collectionName ''AAPL''"
  let ?find = "FindStock ?c None True (Some 100)"
  let ?s1 = "empty_store\<lparr>trace := trace empty_store @ [?find]\<rparr>"
  let ?s2 = "snd (pullStock env_aapl ''AAPL'' ?s1)"
  have p: "pullStock env_aapl ''AAPL'' ?s1 = (Inr 1, ?s2)"
    by (simp add: pullStock_aapl_any empty_store_simps)
  have st2: "stocks ?s2 ?c = [aapl_doc]"
    by (simp add: pullStock_aapl_any empty_store_simps aapl_stockDoc)
  have tr2: "pull_calls (trace ?s2) = [''AAPL'']"
    by (simp add: pullStock_aapl_any empty_store_simps)
  have docs: "take 100 (sort_date_desc (stocks ?s2 ?c)) = [aapl_doc]"
    unfolding st2 by (simp add: sort_date_desc_def)
  from get_stock_prices_cache_fill[of empty_store "''AAPL''" None env_aapl]
  obtain r s' where
    res: "processGetStockPrices env_aapl ''AAPL'' None empty_store = (Inr r, s')"
    and calls: "pull_calls (trace s') = pull_calls (trace empty_store) @ [''AAPL'']"
    and fresh: "\<forall>n s2. pullStock env_aapl ''AAPL'' ?s1 = (Inr n, s2) \<longrightarrow>
          s' = s2\<lparr>trace := trace s2 @ [?find]\<rparr>
          \<and> (take 100 (sort_date_desc (stocks s2 ?c)) \<noteq> [] \<longrightarrow>
               r = \<lparr>message = ''Found ''
                        @ show_nat (length (take 100 (sort_date_desc (stocks s2 ?c))))
                        @ '' stock price records for '' @ ''AAPL'' @ '' (freshly pulled from API)'',
                    data = DataDocs (take 100 (sort_date_desc (stocks s2 ?c))),
                    error = None\<rparr>)"
    and again: "stocks s' ?c \<noteq> [] \<longrightarrow>
          (\<forall>e'. processGetStockPrices e' ''AAPL'' None s' =
             (Inr \<lparr>message = ''Found ''
                      @ show_nat (length (take 100 (sort_date_desc (stocks s' ?c))))
                      @ '' stock price records for '' @ ''AAPL'',
                    data = DataDocs (take 100 (sort_date_desc (stocks s' ?c))),
                    error = None\<rparr>,
              s'\<lparr>trace := trace s' @ [?find]\<rparr>))"
    by (auto simp: empty_store_simps)
  from fresh[rule_format, OF p] docs
  have s': "s' = ?s2\<lparr>trace := trace ?s2 @ [?find]\<rparr>"
    and r: "r = \<lparr>message = ''Found 1 stock price records for AAPL (freshly pulled from API)'',
                 data = DataDocs [aapl_doc], error = None\<rparr>"
    by (simp_all add: show_nat_1)
  have st': "stocks s' ?c = [aapl_doc]" unfolding s' using st2 by simp
  from again st' have second: "processGetStockPrices env_nofile ''AAPL'' None s' =
             (Inr \<lparr>message = ''Found 1 stock price records for AAPL'',
                    data = DataDocs [aapl_doc], error = None\<rparr>,
              s'\<lparr>trace := trace s' @ [?find]\<rparr>)"
    by (simp add: sort_date_desc_def show_nat_1)
  have c1: "pull_calls (trace s') = [''AAPL'']" using calls by (simp add: empty_store_simps)
  show ?thesis using res r second c1 by simp
qed

lemma includes_facts:
  "str_includes ''ENOENT: no such file or directory, open .keylist'' ''No such file'' = False"
  "str_includes ''ENOENT: no such file or directory, open .keylist'' ''.keylist'' = True"
  "str_includes ''.keylist file is empty'' ''.keylist'' = True"
  "str_includes ''.keylist file not found'' ''.keylist'' = True"
  "str_includes ''Alpha Vantage API error: upstream ENOENT'' ''.keylist'' = False"
  "str_includes ''Alpha Vantage API error: upstream ENOENT'' ''ENOENT'' = True"
  "str_includes ''Alpha Vantage API error: Invalid API call'' ''.keylist'' = False"
  "str_includes ''Alpha Vantage API error: Invalid API call'' ''ENOENT'' = False"
  by code_simp+

lemma pullStock_keyfile_errors:
  assumes "apiKeys s = []"
  shows "keylist e = Inl msg \<Longrightarrow>
           fst (pullStock e sy s)
             = Inl (if str_includes msg ''No such file'' then ''.keylist file not found'' else msg)"
    and "keylist e = Inr content \<Longrightarrow> parse_keylist content = [] \<Longrightarrow>
           fst (pullStock e sy s) = Inl ''.keylist file is empty''"
  using assms by (simp_all add: pullStock_def getKey_first_call)

lemma prices_on_date_miss_failed:
  assumes "globalClient s" and "formatStockDate d = Inr f"
    and "filter (\<lambda>x. date x = f) (stocks s (collectionName sy)) = []"
    and "pullStock e sy (s\<lparr>trace := trace s @ [FindStock (collectionName sy) (Some f) False None]\<rparr>)
           = (Inl err, s2)"
  shows "prices_on_date e sy d s = (Inr (auto_pull_failed sy DataNull err), s2)"
  unfolding prices_on_date_def assms(2) using assms(3,4)
  by (simp add: findStock_connected(2)[OF assms(1)])

lemma latest_prices_miss_failed:
  assumes "globalClient s" and "stocks s (collectionName sy) = []"
    and "pullStock e sy (s\<lparr>trace := trace s @ [FindStock (collectionName sy) None True (Some 100)]\<rparr>)
           = (Inl err, s2)"
  shows "latest_prices e sy s = (Inr (auto_pull_failed sy (DataDocs []) err), s2)"
  unfolding latest_prices_miss[OF assms(1,2)] assms(3) by simp

lemma auto_pull_failed_fields:
  "data (auto_pull_failed sy x err) = x"
  "error (auto_pull_failed sy x err)
     = Some (if str_includes err ''.keylist'' \<or> str_includes err ''ENOENT''
             then ''Missing .keylist file'' else err)"
  "message (auto_pull_failed sy x err) \<noteq> []"
  by (simp_all add: auto_pull_failed_def)

section \<open>Failed fetches: properties\<close>

lemma getKey_k3_first:
  assumes "apiKeys s = []" "currentKeyIndex s = 0" "keylist e = Inr keyfile_k3"
  shows "getKey e s = (Inr ''K1'',
        s\<lparr>trace := trace s @ [ReadKeylist],
          apiKeys := [''K1'', ''K2'', ''K3''], currentKeyIndex := 1\<rparr>)"
  using assms by (simp add: getKey_first_call parse_keyfile_k3 next_key_def)

lemma pullStock_api_error_any:
  assumes "apiKeys s = []" "currentKeyIndex s = 0"
  shows "pullStock env_api_error sy s =
     (Inl ''Alpha Vantage API error: Invalid API call'',
      s\<lparr>trace := trace s @ [CallPullStock sy, ReadKeylist],
        apiKeys := [''K1'', ''K2'', ''K3''], currentKeyIndex := 1,
        trace := trace s @ [CallPullStock sy, ReadKeylist, HttpGet (stock_url sy ''K1'')]\<rparr>)"
proof -
  have k: "keylist env_api_error = Inr keyfile_k3" by (simp add: env_api_error_def)
  have gk: "getKey env_api_error (s\<lparr>trace := trace s @ [CallPullStock sy]\<rparr>)
     = (Inr ''K1'',
        s\<lparr>trace := trace s @ [CallPullStock sy, ReadKeylist],
          apiKeys := [''K1'', ''K2'', ''K3''], currentKeyIndex := 1\<rparr>)"
    using getKey_k3_first[of "s\<lparr>trace := trace s @ [CallPullStock sy]\<rparr>" env_api_error] assms k
    by simp
  show ?thesis
    unfolding pullStock_def gk
    by (simp add: fetch_json_def env_api_error_def response_ok_def error_field_def)
qed

lemma pullStock_no_series_any:
  assumes "apiKeys s = []" "currentKeyIndex s = 0"
  shows "pullStock env_no_series sy s =
     (Inl ''Invalid API response: missing 'Time Series (Daily)' field'',
      s\<lparr>trace := trace s @ [CallPullStock sy, ReadKeylist],
        apiKeys := [''K1'', ''K2'', ''K3''], currentKeyIndex := 1,
        trace := trace s @ [CallPullStock sy, ReadKeylist, HttpGet (stock_url sy ''K1'')]\<rparr>)"
proof -
  have k: "keylist env_no_series = Inr keyfile_k3" by (simp add: env_no_series_def)
  have gk: "getKey env_no_series (s\<lparr>trace := trace s @ [CallPullStock sy]\<rparr>)
     = (Inr ''K1'',
        s\<lparr>trace := trace s @ [CallPullStock sy, ReadKeylist],
          apiKeys := [''K1'', ''K2'', ''K3''], currentKeyIndex := 1\<rparr>)"
    using getKey_k3_first[of "s\<lparr>trace := trace s @ [CallPullStock sy]\<rparr>" env_no_series] assms k
    by simp
  show ?thesis
    unfolding pullStock_def gk
    by (simp add: fetch_json_def env_no_series_def response_ok_def error_field_def)
qed

lemma pullNews_api_error_any:
  assumes "apiKeys s = []" "currentKeyIndex s = 0"
  shows "pullNews env_api_error t1 t2 s =
     (Inl ''Alpha Vantage API error: Invalid API call'',
      s\<lparr>trace := trace s @ [CallPullNews t1 t2, ReadKeylist],
        apiKeys := [''K1'', ''K2'', ''K3''], currentKeyIndex := 1,
        trace := trace s @ [CallPullNews t1 t2, ReadKeylist, HttpGet (news_url ''K1'' t1 t2)]\<rparr>)"
proof -
  have k: "keylist env_api_error = Inr keyfile_k3" by (simp add: env_api_error_def)
  have gk: "getKey env_api_error (s\<lparr>trace := trace s @ [CallPullNews t1 t2]\<rparr>)
     = (Inr ''K1'',
        s\<lparr>trace := trace s @ [CallPullNews t1 t2, ReadKeylist],
          apiKeys := [''K1'', ''K2'', ''K3''], currentKeyIndex := 1\<rparr>)"
    using getKey_k3_first[of "s\<lparr>trace := trace s @ [CallPullNews t1 t2]\<rparr>" env_api_error] assms k
    by simp
  show ?thesis
    unfolding pullNews_def gk
    by (simp add: fetch_json_def env_api_error_def response_ok_def error_field_def)
qed

text \<open>
  Claim C2, evaluated. With a valid key file, when the provider answers status 200 with
  an \<open>Error Message\<close> field, or with a body that has no time series, \<open>pullStock\<close>
  fails right after the request and its trace holds no delay; the same holds for
  \<open>pullNews\<close> on the error answer. On the successful AAPL run the trace ends with
  the upsert followed by the one delay. So the delay follows the request only when the
  whole operation succeeds.
\<close>

theorem pull_failure_skips_delay:
  "fst (pullStock env_api_error ''IBM'' empty_store) = Inl ''Alpha Vantage API error: Invalid API call''
   \<and> trace (snd (pullStock env_api_error ''IBM'' empty_store))
       = [CallPullStock ''IBM'', ReadKeylist, HttpGet (stock_url ''IBM'' ''K1'')]
   \<and> waits (trace (snd (pullStock env_api_error ''IBM'' empty_store))) = 0
   \<and> fst (pullStock env_no_series ''IBM'' empty_store)
       = Inl ''Invalid API response: missing 'Time Series (Daily)' field''
   \<and> trace (snd (pullStock env_no_series ''IBM'' empty_store))
       = [CallPullStock ''IBM'', ReadKeylist, HttpGet (stock_url ''IBM'' ''K1'')]
   \<and> waits (trace (snd (pullStock env_no_series ''IBM'' empty_store))) = 0
   \<and> fst (pullNews env_api_error ''20251221T0000'' ''20251222T0000'' empty_store)
       = Inl ''Alpha Vantage API error: Invalid API call''
   \<and> waits (trace (snd (pullNews env_api_error ''20251221T0000'' ''20251222T0000'' empty_store))) = 0
   \<and> fst (pullStock env_aapl ''AAPL'' empty_store) = Inr 1
   \<and> trace (snd (pullStock env_aapl ''AAPL'' empty_store))
       = [CallPullStock ''AAPL'', ReadKeylist, HttpGet (stock_url ''AAPL'' ''K1''),
          Upsert (collectionName ''AAPL'') ''2025-12-23'', Wait 5000]"
  by (simp add: pullStock_api_error_any pullStock_no_series_any pullNews_api_error_any
      pullStock_aapl empty_store_simps)

lemma pullStock_nofile_any:
  assumes "apiKeys s = []"
  shows "pullStock env_nofile sy s =
     (Inl ''ENOENT: no such file or directory, open .keylist'',
      s\<lparr>trace := trace s @ [CallPullStock sy, ReadKeylist]\<rparr>)"
  using assms
  by (simp add: pullStock_def getKey_first_call env_nofile_def includes_facts)

lemma pullStock_emptyfile_any:
  assumes "apiKeys s = []"
  shows "pullStock env_emptyfile sy s =
     (Inl ''.keylist file is empty'',
      s\<lparr>trace := trace s @ [CallPullStock sy, ReadKeylist]\<rparr>)"
  using assms
  by (simp add: pullStock_def getKey_first_call env_emptyfile_def parse_keylist_def trim_def
      skip_ws_def skip_seqs_Nil)

lemma pullStock_api_enoent_any:
  assumes "apiKeys s = []" "currentKeyIndex s = 0"
  shows "pullStock env_api_enoent sy s =
     (Inl ''Alpha Vantage API error: upstream ENOENT'',
      s\<lparr>trace := trace s @ [CallPullStock sy, ReadKeylist],
        apiKeys := [''K1'', ''K2'', ''K3''], currentKeyIndex := 1,
        trace := trace s @ [CallPullStock sy, ReadKeylist, HttpGet (stock_url sy ''K1'')]\<rparr>)"
proof -
  have k: "keylist env_api_enoent = Inr keyfile_k3" by (simp add: env_api_enoent_def)
  have gk: "getKey env_api_enoent (s\<lparr>trace := trace s @ [CallPullStock sy]\<rparr>)
     = (Inr ''K1'',
        s\<lparr>trace := trace s @ [CallPullStock sy, ReadKeylist],
          apiKeys := [''K1'', ''K2'', ''K3''], currentKeyIndex := 1\<rparr>)"
    using getKey_k3_first[of "s\<lparr>trace := trace s @ [CallPullStock sy]\<rparr>" env_api_enoent] assms k
    by simp
  show ?thesis
    unfolding pullStock_def gk
    by (simp add: fetch_json_def env_api_enoent_def response_ok_def error_field_def)
qed

text \<open>
  Claim C5, as amended. When the first read finds nothing and \<open>pullStock\<close> then
  fails with message \<open>err\<close>, \<open>processGetStockPrices\<close> returns normally with the
  result built by the \<open>catch\<close> block, in the state the failed fetch left: its
  \<open>data\<close> is the empty list on the latest-prices path and \<open>null\<close> on the dated
  path, its message is not empty, and its \<open>error\<close> field is
  \<open>Missing .keylist file\<close> exactly when \<open>err\<close> contains \<open>.keylist\<close> or
  \<open>ENOENT\<close>, and \<open>err\<close> itself otherwise. The failures of the first key load
  fall in the first class: an unreadable key file whose error text contains
  \<open>No such file\<close>, \<open>.keylist\<close> or \<open>ENOENT\<close>, and a key file without any
  non-blank line.
\<close>

theorem auto_pull_failure_result:
  "(globalClient s \<and> (dt = None \<or> dt = Some []) \<and> stocks s (collectionName sy) = []
      \<and> pullStock e sy (s\<lparr>trace := trace s @ [FindStock (collectionName sy) None True (Some 100)]\<rparr>)
          = (Inl err, s2)
     \<longrightarrow> processGetStockPrices e sy dt s = (Inr (auto_pull_failed sy (DataDocs []) err), s2))
   \<and> (globalClient s \<and> d \<noteq> [] \<and> formatStockDate d = Inr f
      \<and> filter (\<lambda>x. date x = f) (stocks s (collectionName sy)) = []
      \<and> pullStock e sy (s\<lparr>trace := trace s @ [FindStock (collectionName sy) (Some f) False None]\<rparr>)
          = (Inl err, s2)
     \<longrightarrow> processGetStockPrices e sy (Some d) s = (Inr (auto_pull_failed sy DataNull err), s2))
   \<and> data (auto_pull_failed sy x err) = x
   \<and> message (auto_pull_failed sy x err) \<noteq> []
   \<and> error (auto_pull_failed sy x err)
       = Some (if str_includes err ''.keylist'' \<or> str_includes err ''ENOENT''
               then ''Missing .keylist file'' else err)
   \<and> (apiKeys t = [] \<and> keylist e' = Inl msg
        \<and> (str_includes msg ''No such file'' \<or> str_includes msg ''.keylist''
            \<or> str_includes msg ''ENOENT'') \<longrightarrow>
        (\<exists>err'. fst (pullStock e' sy t) = Inl err'
           \<and> error (auto_pull_failed sy x err') = Some ''Missing .keylist file''))
   \<and> (apiKeys t = [] \<and> keylist e' = Inr content \<and> parse_keylist content = [] \<longrightarrow>
        (\<exists>err'. fst (pullStock e' sy t) = Inl err'
           \<and> error (auto_pull_failed sy x err') = Some ''Missing .keylist file''))"
proof (intro conjI impI)
  assume a: "globalClient s \<and> (dt = None \<or> dt = Some []) \<and> stocks s (collectionName sy) = []
      \<and> pullStock e sy (s\<lparr>trace := trace s @ [FindStock (collectionName sy) None True (Some 100)]\<rparr>)
          = (Inl err, s2)"
  then have "latest_prices e sy s = (Inr (auto_pull_failed sy (DataDocs []) err), s2)"
    using latest_prices_miss_failed[of s sy e err s2] by blast
  moreover have "processGetStockPrices e sy dt s = latest_prices e sy s"
    using a processGetStockPrices_no_date[of dt e sy s] by blast
  ultimately show "processGetStockPrices e sy dt s = (Inr (auto_pull_failed sy (DataDocs []) err), s2)"
    by simp
next
  assume a: "globalClient s \<and> d \<noteq> [] \<and> formatStockDate d = Inr f
      \<and> filter (\<lambda>x. date x = f) (stocks s (collectionName sy)) = []
      \<and> pullStock e sy (s\<lparr>trace := trace s @ [FindStock (collectionName sy) (Some f) False None]\<rparr>)
          = (Inl err, s2)"
  then have "prices_on_date e sy d s = (Inr (auto_pull_failed sy DataNull err), s2)"
    using prices_on_date_miss_failed[of s d f sy e err s2] by blast
  then show "processGetStockPrices e sy (Some d) s = (Inr (auto_pull_failed sy DataNull err), s2)"
    using a by (simp add: processGetStockPrices_def)
next
  show "data (auto_pull_failed sy x err) = x" by (rule auto_pull_failed_fields)
  show "message (auto_pull_failed sy x err) \<noteq> []" by (rule auto_pull_failed_fields)
  show "error (auto_pull_failed sy x err)
       = Some (if str_includes err ''.keylist'' \<or> str_includes err ''ENOENT''
               then ''Missing .keylist file'' else err)"
    by (rule auto_pull_failed_fields)
next
  assume a: "apiKeys t = [] \<and> keylist e' = Inl msg
        \<and> (str_includes msg ''No such file'' \<or> str_includes msg ''.keylist''
            \<or> str_includes msg ''ENOENT'')"
  let ?err = "if str_includes msg ''No such file'' then ''.keylist file not found'' else msg"
  have 1: "fst (pullStock e' sy t) = Inl ?err"
    using a pullStock_keyfile_errors(1)[of t e' msg sy] by blast
  have 2: "str_includes ?err ''.keylist'' \<or> str_includes ?err ''ENOENT''"
    using a by (auto simp: includes_facts)
  show "\<exists>err'. fst (pullStock e' sy t) = Inl err'
           \<and> error (auto_pull_failed sy x err') = Some ''Missing .keylist file''"
    apply (rule exI[of _ ?err])
    using 1 2 by (simp only: auto_pull_failed_fields) simp
next
  assume a: "apiKeys t = [] \<and> keylist e' = Inr content \<and> parse_keylist content = []"
  have 1: "fst (pullStock e' sy t) = Inl ''.keylist file is empty''"
    using a pullStock_keyfile_errors(2)[of t e' content sy] by blast
  show "\<exists>err'. fst (pullStock e' sy t) = Inl err'
           \<and> error (auto_pull_failed sy x err') = Some ''Missing .keylist file''"
    apply (rule exI[of _ "''.keylist file is empty''"])
    using 1 by (simp add: auto_pull_failed_fields includes_facts)
qed

lemma formatStockDate_20251223: "formatStockDate ''20251223'' = Inr ''2025-12-23''"
  by (simp add: formatStockDate_def is_yyyymmdd_def is_digit_def slice_def)

text \<open>Instances of claim C5 as amended: a provider error on the dated path gives
  \<open>data: null\<close> and the provider's text as \<open>error\<close>; on the latest-prices path
  it gives \<open>data: []\<close>; a missing key file gives \<open>Missing .keylist file\<close>.\<close>

theorem auto_pull_failure_result_witness:
  "fst (processGetStockPrices env_api_error ''IBM'' (Some ''20251223'') empty_store)
     = Inr \<lparr>message = ''No stock data found for IBM. Auto-pull failed: Alpha Vantage API error: Invalid API call'',
            data = DataNull,
            error = Some ''Alpha Vantage API error: Invalid API call''\<rparr>
   \<and> map_sum id data (fst (processGetStockPrices env_api_error ''IBM'' None empty_store))
       = Inr (DataDocs [])
   \<and> map_sum id error (fst (processGetStockPrices env_nofile ''IBM'' None empty_store))
       = Inr (Some ''Missing .keylist file'')"
proof -
  let ?c = "collectionName ''IBM''"
  let ?sd = "empty_store\<lparr>trace := trace empty_store @ [FindStock ?c (Some ''2025-12-23'') False None]\<rparr>"
  let ?sl = "empty_store\<lparr>trace := trace empty_store @ [FindStock ?c None True (Some 100)]\<rparr>"
  let ?err = "''Alpha Vantage API error: Invalid API call''"
  have pd: "pullStock env_api_error ''IBM'' ?sd = (Inl ?err, snd (pullStock env_api_error ''IBM'' ?sd))"
    by (simp add: pullStock_api_error_any empty_store_simps)
  have pl: "pullStock env_api_error ''IBM'' ?sl = (Inl ?err, snd (pullStock env_api_error ''IBM'' ?sl))"
    by (simp add: pullStock_api_error_any empty_store_simps)
  have hd: "globalClient empty_store \<and> ''20251223'' \<noteq> [] \<and> formatStockDate ''20251223'' = Inr ''2025-12-23''
      \<and> filter (\<lambda>x. date x = ''2025-12-23'') (stocks empty_store ?c) = []
      \<and> pullStock env_api_error ''IBM'' ?sd = (Inl ?err, snd (pullStock env_api_error ''IBM'' ?sd))"
    using pd by (simp add: empty_store_simps formatStockDate_20251223)
  have hl: "globalClient empty_store \<and> (None = None \<or> None = Some []) \<and> stocks empty_store ?c = []
      \<and> pullStock env_api_error ''IBM'' ?sl = (Inl ?err, snd (pullStock env_api_error ''IBM'' ?sl))"
    using pl by (simp add: empty_store_simps)
  have 1: "processGetStockPrices env_api_error ''IBM'' (Some ''20251223'') empty_store
        = (Inr (auto_pull_failed ''IBM'' DataNull ?err), snd (pullStock env_api_error ''IBM'' ?sd))"
    using auto_pull_failure_result[of empty_store None "''IBM''" env_api_error ?err
        "snd (pullStock env_api_error ''IBM'' ?sd)" "''20251223''" "''2025-12-23''"] hd
    by blast
  have 2: "processGetStockPrices env_api_error ''IBM'' None empty_store
        = (Inr (auto_pull_failed ''IBM'' (DataDocs []) ?err), snd (pullStock env_api_error ''IBM'' ?sl))"
    using auto_pull_failure_result[of empty_store None "''IBM''" env_api_error ?err
        "snd (pullStock env_api_error ''IBM'' ?sl)"] hl
    by blast
  let ?ne = "''ENOENT: no such file or directory, open .keylist''"
  have pn: "pullStock env_nofile ''IBM'' ?sl = (Inl ?ne, snd (pullStock env_nofile ''IBM'' ?sl))"
    by (simp add: pullStock_nofile_any empty_store_simps)
  have hn: "globalClient empty_store \<and> (None = None \<or> None = Some []) \<and> stocks empty_store ?c = []
      \<and> pullStock env_nofile ''IBM'' ?sl = (Inl ?ne, snd (pullStock env_nofile ''IBM'' ?sl))"
    using pn by (simp add: empty_store_simps)
  have 3: "processGetStockPrices env_nofile ''IBM'' None empty_store
        = (Inr (auto_pull_failed ''IBM'' (DataDocs []) ?ne), snd (pullStock env_nofile ''IBM'' ?sl))"
    using auto_pull_failure_result[of empty_store None "''IBM''" env_nofile ?ne
        "snd (pullStock env_nofile ''IBM'' ?sl)"] hn
    by blast
  show ?thesis
    unfolding 1 2 3
    by (simp add: auto_pull_failed_def includes_facts)
qed

text \<open>
  Claim C5 as stated fails: on the latest-prices path the failed fetch gives
  \<open>data: []\<close>, not \<open>null\<close>; an empty key file gives the very result a missing
  key file gives; and a provider error whose text contains \<open>ENOENT\<close> is reported as
  \<open>Missing .keylist file\<close> although the keys were loaded.
\<close>

theorem auto_pull_failure_counterexample:
  "map_sum id data (fst (processGetStockPrices env_nofile ''IBM'' None empty_store))
     = Inr (DataDocs [])
   \<and> DataDocs [] \<noteq> DataNull
   \<and> fst (processGetStockPrices env_emptyfile ''IBM'' None empty_store)
       = fst (processGetStockPrices env_nofile ''IBM'' None empty_store)
   \<and> map_sum id error (fst (processGetStockPrices env_api_enoent ''IBM'' None empty_store))
       = Inr (Some ''Missing .keylist file'')
   \<and> map_sum id error (fst (processGetStockPrices env_nofile ''IBM'' None empty_store))
       = Inr (Some ''Missing .keylist file'')"
proof -
  let ?c = "collectionName ''IBM''"
  let ?sl = "empty_store\<lparr>trace := trace empty_store @ [FindStock ?c None True (Some 100)]\<rparr>"
  have g: "globalClient empty_store" "stocks empty_store ?c = []" by (simp_all add: empty_store_simps)
  have a: "apiKeys ?sl = []" "currentKeyIndex ?sl = 0" by (simp_all add: empty_store_simps)
  have 1: "fst (processGetStockPrices env_nofile ''IBM'' None empty_store)
        = Inr (auto_pull_failed ''IBM'' (DataDocs [])
                 ''ENOENT: no such file or directory, open .keylist'')"
    by (simp add: processGetStockPrices_def latest_prices_miss[OF g] pullStock_nofile_any[OF a(1)])
  have 2: "fst (processGetStockPrices env_emptyfile ''IBM'' None empty_store)
        = Inr (auto_pull_failed ''IBM'' (DataDocs []) ''.keylist file is empty'')"
    by (simp add: processGetStockPrices_def latest_prices_miss[OF g] pullStock_emptyfile_any[OF a(1)])
  have 3: "fst (processGetStockPrices env_api_enoent ''IBM'' None empty_store)
        = Inr (auto_pull_failed ''IBM'' (DataDocs []) ''Alpha Vantage API error: upstream ENOENT'')"
    by (simp add: processGetStockPrices_def latest_prices_miss[OF g] pullStock_api_enoent_any[OF a])
  show ?thesis
    unfolding 1 2 3 by (simp add: auto_pull_failed_def includes_facts)
qed

end
